theory Spec2Isabelle
  imports Main "HOL-Library.AList" "HOL-Library.Sublist"
    "HOL-Library.Char_ord" "HOL-Library.List_Lexorder"
begin

section \<open>Nomad Manager: strings, paths and the file system\<close>

text \<open>
  The program (\<^verbatim>\<open>NomadManager.py\<close>) watches a downloads tree, decides per video file
  whether to transcode it, and relocates the result into a mirrored output tree, keeping a
  status table in SQLite. Everything it does is an effect on the outside world, so the model
  threads a \<open>world\<close> record (file system, status table, clock, operator input, log,
  transcoder invocations) through every function, and takes the external tools (prober,
  transcoder, poster service, the other processes that write files while the program
  sleeps) as fields of an \<open>env\<close> record. An uncaught Python exception is the left
  summand of the result type; it ends the program, so no world is returned with it.
\<close>

subsection \<open>Errors\<close>

datatype error =
    FileNotFoundError
  | FileExistsError
  | NotADirectoryError
  | IsADirectoryError
  | ValueError
  | EOFError
  | OSError
  | ShutilError

definition bindE :: "error + 'a \<Rightarrow> ('a \<Rightarrow> error + 'b) \<Rightarrow> error + 'b" where
  "bindE m f = (case m of Inl e \<Rightarrow> Inl e | Inr x \<Rightarrow> f x)"

fun error_str :: "error \<Rightarrow> string" where
  "error_str FileNotFoundError = ''FileNotFoundError''"
| "error_str FileExistsError = ''FileExistsError''"
| "error_str NotADirectoryError = ''NotADirectoryError''"
| "error_str IsADirectoryError = ''IsADirectoryError''"
| "error_str ValueError = ''ValueError''"
| "error_str EOFError = ''EOFError''"
| "error_str OSError = ''OSError''"
| "error_str ShutilError = ''ShutilError''"

subsection \<open>Strings\<close>

text \<open>
  \<^verbatim>\<open>str.lower()\<close> on ASCII letters. No character outside ASCII lowers to a letter of
  \<^verbatim>\<open>mp4\<close>, \<^verbatim>\<open>h264\<close>, \<^verbatim>\<open>avc1\<close>, \<^verbatim>\<open>y\<close>, \<^verbatim>\<open>yes\<close>, \<^verbatim>\<open>n\<close>, \<^verbatim>\<open>no\<close> or of a video extension, so the
  membership tests of the program agree with this table.
\<close>

definition lower_char :: "char \<Rightarrow> char" where
  "lower_char c =
     (case map_of (zip ''ABCDEFGHIJKLMNOPQRSTUVWXYZ'' ''abcdefghijklmnopqrstuvwxyz'') c of
        Some d \<Rightarrow> d
      | None \<Rightarrow> c)"

definition lower :: "string \<Rightarrow> string" where
  "lower s = map lower_char s"

text \<open>\<^verbatim>\<open>str.strip()\<close>: the ASCII white space characters are removed at both ends.\<close>

definition is_space :: "char \<Rightarrow> bool" where
  "is_space c =
     (c \<in> set [CHR '' '', CHR 0x09, CHR 0x0A, CHR 0x0B, CHR 0x0C, CHR 0x0D,
                CHR 0x1C, CHR 0x1D, CHR 0x1E, CHR 0x1F])"

definition strip :: "string \<Rightarrow> string" where
  "strip s = rev (dropWhile is_space (rev (dropWhile is_space s)))"

text \<open>\<^verbatim>\<open>p in s\<close> for strings: \<open>p\<close> occurs in \<open>s\<close> as a contiguous substring.\<close>

fun contains :: "string \<Rightarrow> string \<Rightarrow> bool" where
  "contains p [] = (p = [])"
| "contains p (c # cs) = (prefix p (c # cs) \<or> contains p cs)"

text \<open>Decimal rendering of a number, as an f-string prints it.\<close>

definition digit_char :: "nat \<Rightarrow> char" where
  "digit_char d = ''0123456789'' ! d"

fun str_of_nat :: "nat \<Rightarrow> string" where
  "str_of_nat n =
     (if n < 10 then [digit_char n]
      else str_of_nat (n div 10) @ [digit_char (n mod 10)])"

declare str_of_nat.simps [simp del]

definition str_of_int :: "int \<Rightarrow> string" where
  "str_of_int i = (if i < 0 then CHR ''-'' # str_of_nat (nat (- i)) else str_of_nat (nat i))"

subsection \<open>Paths (\<^verbatim>\<open>pathlib.Path\<close>)\<close>

text \<open>
  An absolute path is the list of its components below the root; \<open>[]\<close> is the root.
\<close>

type_synonym path = "string list"

definition name :: "path \<Rightarrow> string" where
  "name p = (if p = [] then [] else last p)"

definition parent :: "path \<Rightarrow> path" where
  "parent p = butlast p"

text \<open>\<^verbatim>\<open>dir / name\<close>; joining the empty name gives the directory itself.\<close>

definition join :: "path \<Rightarrow> string \<Rightarrow> path" where
  "join d n = (if n = [] then d else d @ [n])"

definition path_str :: "path \<Rightarrow> string" where
  "path_str p = (if p = [] then ''/'' else concat (map (\<lambda>c. CHR ''/'' # c) p))"

text \<open>
  \<^verbatim>\<open>suffix\<close> and \<^verbatim>\<open>stem\<close> of a file name: with \<open>i = name.rfind('.')\<close>, the suffix is
  \<open>name[i:]\<close> when \<open>0 < i < len(name) - 1\<close> and empty otherwise; the stem is the rest.
\<close>

definition after_last_dot :: "string \<Rightarrow> string" where
  "after_last_dot n = rev (takeWhile (\<lambda>c. c \<noteq> CHR ''.'') (rev n))"

definition suffix_of :: "string \<Rightarrow> string" where
  "suffix_of n =
     (let e = after_last_dot n in
      if CHR ''.'' \<in> set n \<and> e \<noteq> [] \<and> length e + 1 < length n
      then CHR ''.'' # e else [])"

definition stem_of :: "string \<Rightarrow> string" where
  "stem_of n = take (length n - length (suffix_of n)) n"

definition suffix :: "path \<Rightarrow> string" where
  "suffix p = suffix_of (name p)"

definition stem :: "path \<Rightarrow> string" where
  "stem p = stem_of (name p)"

text \<open>\<^verbatim>\<open>with_name\<close> and \<^verbatim>\<open>with_suffix\<close> raise ValueError on a path with an empty name.\<close>

definition with_name :: "path \<Rightarrow> string \<Rightarrow> error + path" where
  "with_name p n = (if name p = [] then Inl ValueError else Inr (butlast p @ [n]))"

definition with_suffix :: "path \<Rightarrow> string \<Rightarrow> error + path" where
  "with_suffix p s = (if name p = [] then Inl ValueError else Inr (butlast p @ [stem p @ s]))"

text \<open>\<^verbatim>\<open>src.relative_to(root)\<close> raises ValueError unless \<open>root\<close> is a prefix of \<open>src\<close>.\<close>

definition relative_to :: "path \<Rightarrow> path \<Rightarrow> error + path" where
  "relative_to p root = (if prefix root p then Inr (drop (length root) p) else Inl ValueError)"

subsection \<open>Configuration constants\<close>

definition TEMP_SUFFIX :: string where
  "TEMP_SUFFIX = ''.transcoding''"

definition VIDEO_EXTS :: "string list" where
  "VIDEO_EXTS = [''.mp4'', ''.mkv'', ''.avi'', ''.m4v'', ''.ts'', ''.flv'', ''.mov'']"

definition TEMP_PATTERNS :: "string list" where
  "TEMP_PATTERNS = [''.part'', ''.crdownload'', ''.!qB'', ''.partial'', ''.downloading'']"

definition SIZE_STABLE_SECONDS :: nat where
  "SIZE_STABLE_SECONDS = 30"

definition HANDBRAKE_PRESET :: string where
  "HANDBRAKE_PRESET = ''Fast 480p30''"

definition is_temporary_name :: "string \<Rightarrow> bool" where
  "is_temporary_name n = (\<exists>p \<in> set TEMP_PATTERNS. Sublist.suffix p n \<or> contains p n)"

definition is_video :: "path \<Rightarrow> bool" where
  "is_video p = (lower (suffix p) \<in> set VIDEO_EXTS)"

subsection \<open>The file system\<close>

text \<open>
  A file system is an association list from paths to nodes: its order is the order in which
  the operating system lists directory entries, which the program does not control. A file
  carries its size and a token for its content. The root always exists. Operations fail as
  POSIX does on grounds of existence and node kind; permissions are not modelled, and the
  only other fault is a rename across devices (\<open>xdev\<close> below).
\<close>

datatype node = File (fsize: nat) (fdata: nat) | Dir

type_synonym filesys = "(path \<times> node) list"

definition node_at :: "filesys \<Rightarrow> path \<Rightarrow> node option" where
  "node_at fs p = (if p = [] then Some Dir else map_of fs p)"

definition exists :: "filesys \<Rightarrow> path \<Rightarrow> bool" where
  "exists fs p = (node_at fs p \<noteq> None)"

definition is_file :: "filesys \<Rightarrow> path \<Rightarrow> bool" where
  "is_file fs p = (case node_at fs p of Some (File _ _) \<Rightarrow> True | _ \<Rightarrow> False)"

definition is_dir :: "filesys \<Rightarrow> path \<Rightarrow> bool" where
  "is_dir fs p = (node_at fs p = Some Dir)"

text \<open>\<^verbatim>\<open>p.stat().st_size\<close>; a directory reports the size of its own block.\<close>

definition dir_st_size :: nat where
  "dir_st_size = 4096"

definition stat_size :: "filesys \<Rightarrow> path \<Rightarrow> error + nat" where
  "stat_size fs p =
     (case node_at fs p of
        None \<Rightarrow> Inl FileNotFoundError
      | Some (File s _) \<Rightarrow> Inr s
      | Some Dir \<Rightarrow> Inr dir_st_size)"

text \<open>
  \<^verbatim>\<open>p.mkdir(parents=True, exist_ok=True)\<close>, as pathlib does it: a directory that is there
  is left alone, a file in its place raises; a missing directory is created below an
  existing parent, and a missing parent is made first, in the same way.
\<close>

function ensure_dir :: "path \<Rightarrow> filesys \<Rightarrow> error + filesys" where
  "ensure_dir p fs =
     (case node_at fs p of
        Some Dir \<Rightarrow> Inr fs
      | Some (File _ _) \<Rightarrow> Inl FileExistsError
      | None \<Rightarrow>
          (case node_at fs (parent p) of
             Some Dir \<Rightarrow> Inr (AList.update p Dir fs)
           | Some (File _ _) \<Rightarrow> Inl NotADirectoryError
           | None \<Rightarrow>
               (case ensure_dir (parent p) fs of
                  Inl e \<Rightarrow> Inl e
                | Inr fs1 \<Rightarrow> Inr (AList.update p Dir fs1))))"
  by pat_completeness auto
termination
  by (relation "measure (\<lambda>(p, fs). length p)")
     (auto simp add: node_at_def parent_def split: if_splits)

declare ensure_dir.simps [simp del]

text \<open>\<^verbatim>\<open>p.unlink()\<close>.\<close>

definition unlink :: "path \<Rightarrow> filesys \<Rightarrow> error + filesys" where
  "unlink p fs =
     (case node_at fs p of
        None \<Rightarrow> Inl FileNotFoundError
      | Some Dir \<Rightarrow> Inl IsADirectoryError
      | Some (File _ _) \<Rightarrow> Inr (AList.delete p fs))"

text \<open>
  \<^verbatim>\<open>src.rename(dest)\<close>. A file replaces a file at the destination; a directory moves with
  its whole subtree, onto a free name only. \<open>xdev\<close> says that the two paths lie on
  different devices, where the rename raises.
\<close>

definition reroot :: "path \<Rightarrow> path \<Rightarrow> path \<Rightarrow> path" where
  "reroot src dest p = (if prefix src p then dest @ drop (length src) p else p)"

definition rename :: "(path \<Rightarrow> path \<Rightarrow> bool) \<Rightarrow> path \<Rightarrow> path \<Rightarrow> filesys \<Rightarrow> error + filesys" where
  "rename xdev src dest fs =
     (case node_at fs src of
        None \<Rightarrow> Inl FileNotFoundError
      | Some n \<Rightarrow>
          if src = [] \<or> dest = [] \<or> xdev src dest then Inl OSError
          else if \<not> exists fs (parent dest) then Inl FileNotFoundError
          else if \<not> is_dir fs (parent dest) then Inl NotADirectoryError
          else (case n of
                  File _ _ \<Rightarrow>
                    if is_dir fs dest then Inl IsADirectoryError
                    else if dest = src then Inr fs
                    else Inr (AList.update dest n (AList.delete src fs))
                | Dir \<Rightarrow>
                    if is_file fs dest then Inl NotADirectoryError
                    else if exists fs dest \<or> prefix src dest then Inl OSError
                    else Inr (map (\<lambda>(k, v). (reroot src dest k, v)) fs)))"

text \<open>\<^verbatim>\<open>shutil.copy2(src, dest)\<close>: a destination that is a directory receives the file inside.\<close>

definition copy2 :: "path \<Rightarrow> path \<Rightarrow> filesys \<Rightarrow> error + filesys" where
  "copy2 src dest fs =
     (let target = (if is_dir fs dest then join dest (name src) else dest) in
      case node_at fs src of
        None \<Rightarrow> Inl FileNotFoundError
      | Some Dir \<Rightarrow> Inl IsADirectoryError
      | Some (File s c) \<Rightarrow>
          if is_dir fs target then Inl IsADirectoryError
          else if \<not> is_dir fs (parent target) then Inl FileNotFoundError
          else if target = src then Inl OSError
          else Inr (AList.update target (File s c) fs))"

text \<open>Directory listings: \<^verbatim>\<open>iterdir()\<close> raises on what is not a directory, \<^verbatim>\<open>rglob("*")\<close> lists
  every descendant and nothing for a missing directory.\<close>

definition iterdir :: "filesys \<Rightarrow> path \<Rightarrow> error + path list" where
  "iterdir fs d =
     (case node_at fs d of
        None \<Rightarrow> Inl FileNotFoundError
      | Some (File _ _) \<Rightarrow> Inl NotADirectoryError
      | Some Dir \<Rightarrow> Inr (filter (\<lambda>p. p \<noteq> [] \<and> butlast p = d) (remdups (map fst fs))))"

definition rglob :: "filesys \<Rightarrow> path \<Rightarrow> path list" where
  "rglob fs d = filter (\<lambda>p. strict_prefix d p) (remdups (map fst fs))"

subsection \<open>Collision-free destination names\<close>

text \<open>
  \<^verbatim>\<open>unique_dest\<close> tries \<open>stem_1.suf\<close>, \<open>stem_2.suf\<close>, ... until a name is free. The loop
  ends because the candidates are pairwise different and the file system is finite; the
  lemmas before the function are what its termination proof needs. \<^verbatim>\<open>with_name\<close> raises
  for a destination with an empty name in the first round of the loop already, so the check
  stands before the loop.
\<close>

lemma digit_char_inj: "a < 10 \<Longrightarrow> b < 10 \<Longrightarrow> digit_char a = digit_char b \<Longrightarrow> a = b"
proof -
  assume a: "a < 10" and b: "b < 10" and e: "digit_char a = digit_char b"
  have d: "distinct ''0123456789''" by simp
  have l: "length ''0123456789'' = 10" by simp
  from e have "''0123456789'' ! a = ''0123456789'' ! b" by (simp only: digit_char_def)
  with d a b l show ?thesis by (simp only: nth_eq_iff_index_eq)
qed

lemma str_of_nat_nonempty: "str_of_nat n \<noteq> []"
  by (subst str_of_nat.simps) simp

lemma str_of_nat_last: "last (str_of_nat n) = digit_char (n mod 10)"
  by (subst str_of_nat.simps) simp

lemma str_of_nat_butlast:
  "butlast (str_of_nat n) = (if n < 10 then [] else str_of_nat (n div 10))"
  by (subst str_of_nat.simps) simp

lemma str_of_nat_inj: "str_of_nat m = str_of_nat n \<Longrightarrow> m = n"
proof (induction m arbitrary: n rule: less_induct)
  case (less m)
  from less.prems have l: "digit_char (m mod 10) = digit_char (n mod 10)"
    by (metis str_of_nat_last)
  then have md: "m mod 10 = n mod 10"
    by (intro digit_char_inj) simp_all
  from less.prems have b: "butlast (str_of_nat m) = butlast (str_of_nat n)" by simp
  show ?case
  proof (cases "m < 10")
    case True
    with b have "n < 10"
      using str_of_nat_nonempty [of "n div 10"]
      by (auto simp add: str_of_nat_butlast split: if_splits)
    with True md show ?thesis by simp
  next
    case False
    with b have n: "\<not> n < 10" and e: "str_of_nat (m div 10) = str_of_nat (n div 10)"
      using str_of_nat_nonempty [of "m div 10"]
      by (auto simp add: str_of_nat_butlast split: if_splits)
    from False have "m div 10 < m" by simp
    from less.IH [OF this e] have "m div 10 = n div 10" .
    with md show ?thesis by (metis div_mult_mod_eq)
  qed
qed


definition candidate :: "path \<Rightarrow> string \<Rightarrow> string \<Rightarrow> nat \<Rightarrow> path" where
  "candidate dest base suf i = butlast dest @ [base @ ''_'' @ str_of_nat i @ suf]"

lemma candidate_inj: "candidate dest base suf i = candidate dest base suf j \<Longrightarrow> i = j"
proof -
  assume "candidate dest base suf i = candidate dest base suf j"
  then have "str_of_nat i @ suf = str_of_nat j @ suf" by (simp add: candidate_def)
  then show ?thesis by (simp add: str_of_nat_inj)
qed

lemma taken_finite: "finite {j. exists fs (candidate dest base suf j)}"
proof -
  have "\<And>j. exists fs (candidate dest base suf j) \<Longrightarrow> candidate dest base suf j \<in> fst ` set fs"
    by (simp add: exists_def node_at_def candidate_def map_of_eq_None_iff)
  then have "{j. exists fs (candidate dest base suf j)} \<subseteq> candidate dest base suf -` (fst ` set fs)"
    by blast
  moreover have "finite (candidate dest base suf -` (fst ` set fs))"
    by (intro finite_vimageI injI) (auto dest: candidate_inj)
  ultimately show ?thesis by (rule finite_subset)
qed

function unique_loop :: "filesys \<Rightarrow> path \<Rightarrow> string \<Rightarrow> string \<Rightarrow> nat \<Rightarrow> path" where
  "unique_loop fs dest base suf i =
     (let cand = candidate dest base suf i in
      if \<not> exists fs cand then cand else unique_loop fs dest base suf (i + 1))"
  by pat_completeness auto
termination
proof (relation "measure (\<lambda>(fs, dest, base, suf, i).
         card {j. i \<le> j \<and> exists fs (candidate dest base suf j)})")
  show "wf (measure (\<lambda>(fs, dest, base, suf, i).
         card {j. i \<le> j \<and> exists fs (candidate dest base suf j)}))" by simp
next
  fix fs :: filesys and dest :: path and base suf :: string and i :: nat and x :: path
  assume x: "x = candidate dest base suf i" and t: "\<not> \<not> exists fs x"
  let ?A = "{j. i + 1 \<le> j \<and> exists fs (candidate dest base suf j)}"
  let ?B = "{j. i \<le> j \<and> exists fs (candidate dest base suf j)}"
  have f: "finite ?B" using taken_finite [of fs dest base suf] by simp
  have "i \<in> ?B" and "i \<notin> ?A" and "?A \<subseteq> ?B" using x t by auto
  then have "?A \<subset> ?B" by blast
  with f have "card ?A < card ?B" by (rule psubset_card_mono)
  then show "((fs, dest, base, suf, i + 1), (fs, dest, base, suf, i))
       \<in> measure (\<lambda>(fs, dest, base, suf, i).
           card {j. i \<le> j \<and> exists fs (candidate dest base suf j)})" by simp
qed

declare unique_loop.simps [simp del]

definition unique_dest :: "filesys \<Rightarrow> path \<Rightarrow> error + path" where
  "unique_dest fs dest =
     (if \<not> exists fs dest then Inr dest
      else if name dest = [] then Inl ValueError
      else Inr (unique_loop fs dest (stem dest) (suffix dest) 1))"

section \<open>The world, the environment and the status store\<close>

text \<open>The command line flags (\<^verbatim>\<open>ARGS\<close>) that the modelled functions read.\<close>

record args =
  dry_run :: bool
  confirm :: bool
  no_posters :: bool
  posters_only :: bool

text \<open>What \<^verbatim>\<open>probe_video\<close> returns when ffprobe answered and its JSON was parsed.\<close>

record probe_info =
  vcodec :: "string option"
  width :: int
  height :: int
  format_name :: "string option"
  size :: int

text \<open>What the TMDb lookup of a show name ends in.\<close>

datatype tmdb_result = NetError string | NoMatch | NoBytes | Poster nat nat

text \<open>
  The environment: the flags and the external collaborators. \<open>background t d fs\<close> is
  the file system after the other processes (the download client) ran for \<open>d\<close> seconds
  from time \<open>t\<close>; \<open>ffprobe\<close> is the prober with its output parsed; \<open>handbrake fs src dest\<close> is the
  exit code of the transcoder and the file system it leaves.
\<close>

record env =
  ARGS :: args
  background :: "nat \<Rightarrow> nat \<Rightarrow> filesys \<Rightarrow> filesys"
  ffprobe :: "filesys \<Rightarrow> path \<Rightarrow> probe_info option"
  handbrake :: "filesys \<Rightarrow> path \<Rightarrow> path \<Rightarrow> int \<times> filesys"
  xdev :: "path \<Rightarrow> path \<Rightarrow> bool"
  tmdb :: "string \<Rightarrow> tmdb_result"

datatype status =
    Queued
  | Processing
  | Done_moved
  | Skipped_moved
  | Kept_original_moved
  | Copied_season
  | Skipped_by_user
  | Error

text \<open>A row of the table \<^verbatim>\<open>files\<close>; the path is the key.\<close>

record row =
  status :: status
  added_at :: nat
  updated_at :: nat
  note_txt :: "string option"

record world =
  fs :: filesys
  db :: "path \<rightharpoonup> row"
  clock :: nat
  stdin :: "string list"
  logged :: "string list"
  hb_runs :: "(path \<times> path) list"

definition log :: "string \<Rightarrow> world \<Rightarrow> world" where
  "log msg w = w\<lparr>logged := logged w @ [msg]\<rparr>"

text \<open>\<^verbatim>\<open>mark\<close>: an upsert that keeps \<open>added_at\<close> of a row that is already there. It does not
  read the dry-run flag.\<close>

definition mark :: "world \<Rightarrow> path \<Rightarrow> status \<Rightarrow> string option \<Rightarrow> world" where
  "mark w p st nt =
     w\<lparr>db := (db w)(p \<mapsto>
        (case db w p of
           None \<Rightarrow> \<lparr>status = st, added_at = clock w, updated_at = clock w, note_txt = nt\<rparr>
         | Some r \<Rightarrow> r\<lparr>status := st, updated_at := clock w, note_txt := nt\<rparr>))\<rparr>"

definition status_of :: "world \<Rightarrow> path \<Rightarrow> status option" where
  "status_of w p = map_option status (db w p)"

section \<open>Probing and transcoding\<close>

definition sleep :: "env \<Rightarrow> nat \<Rightarrow> world \<Rightarrow> world" where
  "sleep e d w = w\<lparr>fs := background e (clock w) d (fs w), clock := clock w + d\<rparr>"

text \<open>\<^verbatim>\<open>file_is_stable\<close>: two size samples, \<open>wait\<close> seconds apart. Only a missing file is
  caught; the first miss returns before the sleep.\<close>

definition file_is_stable :: "env \<Rightarrow> world \<Rightarrow> path \<Rightarrow> nat \<Rightarrow> bool \<times> world" where
  "file_is_stable e w p wait =
     (case stat_size (fs w) p of
        Inl _ \<Rightarrow> (False, w)
      | Inr s1 \<Rightarrow>
          (let w1 = sleep e wait w in
           case stat_size (fs w1) p of
             Inl _ \<Rightarrow> (False, w1)
           | Inr s2 \<Rightarrow> (s1 = s2 \<and> s1 > 0, w1)))"

definition probe_video :: "env \<Rightarrow> world \<Rightarrow> path \<Rightarrow> probe_info option" where
  "probe_video e w p = ffprobe e (fs w) p"

definition or_empty :: "string option \<Rightarrow> string" where
  "or_empty x = (case x of None \<Rightarrow> [] | Some s \<Rightarrow> s)"

definition should_skip_by_probe :: "probe_info option \<Rightarrow> bool" where
  "should_skip_by_probe info =
     (case info of
        None \<Rightarrow> False
      | Some i \<Rightarrow>
          (let fmt = lower (or_empty (format_name i));
               v = lower (or_empty (vcodec i));
               w = (if width i \<noteq> 0 then width i else 0)
           in contains ''mp4'' fmt \<and> v \<in> set [''h264'', ''avc1''] \<and> w \<le> 854))"

definition handbrake_cmd :: "path \<Rightarrow> path \<Rightarrow> string" where
  "handbrake_cmd src dest_tmp =
     ''HandBrakeCLI -i '' @ path_str src @ '' -o '' @ path_str dest_tmp @
     '' --preset '' @ HANDBRAKE_PRESET @ '' -O''"

definition transcode_with_handbrake :: "env \<Rightarrow> world \<Rightarrow> path \<Rightarrow> path \<Rightarrow> int \<times> world" where
  "transcode_with_handbrake e w src dest_tmp =
     (if dry_run (ARGS e)
      then (0, log (''[DRY-RUN] Would run: '' @ handbrake_cmd src dest_tmp) w)
      else (let w1 = log (''HandBrakeCLI -> '' @ name src) w;
                (rc, fs') = handbrake e (fs w1) src dest_tmp
            in (rc, w1\<lparr>fs := fs', hb_runs := hb_runs w1 @ [(src, dest_tmp)]\<rparr>)))"

section \<open>Relocation\<close>

text \<open>
  \<^verbatim>\<open>move_safe\<close>: the destination directory is created before the dry-run flag is read.
  A failed rename falls back to copy and delete, and a failed delete is swallowed.
\<close>

definition move_safe :: "env \<Rightarrow> world \<Rightarrow> path \<Rightarrow> path \<Rightarrow> error + (path \<times> world)" where
  "move_safe e w src dest_dir =
     bindE (ensure_dir dest_dir (fs w)) (\<lambda>f1.
     bindE (unique_dest f1 (join dest_dir (name src))) (\<lambda>dest.
       let w1 = w\<lparr>fs := f1\<rparr> in
       if dry_run (ARGS e)
       then Inr (dest, log (''[DRY-RUN] Would move '' @ path_str src @ '' -> '' @ path_str dest) w1)
       else (case rename (xdev e) src dest f1 of
               Inr f2 \<Rightarrow> Inr (dest, w1\<lparr>fs := f2\<rparr>)
             | Inl _ \<Rightarrow>
                 bindE (copy2 src dest f1) (\<lambda>f2.
                   (case unlink src f2 of
                      Inr f3 \<Rightarrow> Inr (dest, w1\<lparr>fs := f3\<rparr>)
                    | Inl _ \<Rightarrow> Inr (dest, w1\<lparr>fs := f2\<rparr>))))))"

text \<open>
  \<^verbatim>\<open>shutil.copytree(src, dest, dirs_exist_ok=True)\<close>: the entries below \<open>src\<close> are listed, every
  directory among them is created below \<open>dest\<close> and every file is copied with \<open>copy2\<close>,
  replacing a file that is there. A failure inside the walk is raised as \<^verbatim>\<open>shutil.Error\<close>.
\<close>

fun copy_entries :: "path \<Rightarrow> path \<Rightarrow> path list \<Rightarrow> filesys \<Rightarrow> error + filesys" where
  "copy_entries src dest [] cur = Inr cur"
| "copy_entries src dest (k # ks) cur =
     (let target = reroot src dest k in
      case node_at cur k of
        None \<Rightarrow> copy_entries src dest ks cur
      | Some Dir \<Rightarrow>
          (case ensure_dir target cur of
             Inl _ \<Rightarrow> Inl ShutilError
           | Inr c1 \<Rightarrow> copy_entries src dest ks c1)
      | Some (File _ _) \<Rightarrow>
          (case bindE (ensure_dir (parent target) cur) (copy2 k target) of
             Inl _ \<Rightarrow> Inl ShutilError
           | Inr c1 \<Rightarrow> copy_entries src dest ks c1))"

definition copytree :: "path \<Rightarrow> path \<Rightarrow> filesys \<Rightarrow> error + filesys" where
  "copytree src dest F =
     (case node_at F src of
        None \<Rightarrow> Inl FileNotFoundError
      | Some (File _ _) \<Rightarrow> Inl NotADirectoryError
      | Some Dir \<Rightarrow> bindE (ensure_dir dest F) (copy_entries src dest (rglob F src)))"

definition copy_tree_safe :: "env \<Rightarrow> world \<Rightarrow> path \<Rightarrow> path \<Rightarrow> error + world" where
  "copy_tree_safe e w src_dir dest_dir =
     bindE (ensure_dir dest_dir (fs w)) (\<lambda>f1.
       let w1 = w\<lparr>fs := f1\<rparr> in
       if dry_run (ARGS e)
       then Inr (log (''[DRY-RUN] Would copy tree '' @ path_str src_dir @ '' -> '' @ path_str dest_dir) w1)
       else bindE (copytree src_dir dest_dir f1) (\<lambda>f2. Inr (w1\<lparr>fs := f2\<rparr>)))"

section \<open>The poster step\<close>

text \<open>Every exception inside \<^verbatim>\<open>fetch_and_save_show_poster\<close> is caught, so it returns a flag
  and a world. The poster is written over whatever file is at its destination.\<close>

definition write_bytes :: "path \<Rightarrow> nat \<Rightarrow> nat \<Rightarrow> filesys \<Rightarrow> error + filesys" where
  "write_bytes p sz c F =
     (if is_dir F p then Inl IsADirectoryError
      else if \<not> is_dir F (parent p) then Inl FileNotFoundError
      else Inr (AList.update p (File sz c) F))"

definition quoted :: "string \<Rightarrow> string" where
  "quoted s = [CHR 0x27] @ s @ [CHR 0x27]"

definition fetch_and_save_show_poster ::
  "env \<Rightarrow> world \<Rightarrow> string \<Rightarrow> path \<Rightarrow> string option \<Rightarrow> path \<Rightarrow> bool \<Rightarrow> bool \<times> world" where
  "fetch_and_save_show_poster e w show_name out_root api_key downloads_root p_only =
     (if api_key = None \<or> api_key = Some []
      then (False, log (''TMDb key not found; skipping poster for '' @ quoted show_name) w)
      else
        (case tmdb e show_name of
           NetError msg \<Rightarrow>
             (False, log (''Poster fetch error for '' @ quoted show_name @ '': '' @ msg) w)
         | NoMatch \<Rightarrow> (False, log (''No TMDb match for '' @ quoted show_name) w)
         | NoBytes \<Rightarrow> (False, log (''No poster bytes for '' @ quoted show_name) w)
         | Poster sz c \<Rightarrow>
             if sz = 0
             then (False, log (''No poster bytes for '' @ quoted show_name) w)
             else
               (let dest = join (if p_only then downloads_root else out_root) (show_name @ ''.jpg'') in
                if dry_run (ARGS e)
                then (True, log (''[DRY-RUN] Would write poster '' @ path_str dest) w)
                else
                  (case bindE (ensure_dir (parent dest) (fs w)) (write_bytes dest sz c) of
                     Inl ex \<Rightarrow>
                       (False, log (''Poster fetch error for '' @ quoted show_name @ '': ''
                                    @ error_str ex) w)
                   | Inr f1 \<Rightarrow>
                       (True, log (''Saved poster for '' @ quoted show_name @ '' -> ''
                                   @ path_str dest) (w\<lparr>fs := f1\<rparr>))))))"

section \<open>The multi-depth collector\<close>

text \<open>The grouping is a Python dict in insertion order: an association list with unique
  keys, the empty key first when the show has videos of its own.\<close>

definition season_videos :: "filesys \<Rightarrow> path \<Rightarrow> path list" where
  "season_videos F f =
     (if is_file F f \<and> is_video f then [f]
      else if is_dir F f then filter (\<lambda>nested. is_file F nested \<and> is_video nested) (rglob F f)
      else [])"

fun collect_seasons ::
  "filesys \<Rightarrow> path list \<Rightarrow> (string \<times> path list) list \<Rightarrow> error + (string \<times> path list) list" where
  "collect_seasons F [] out = Inr out"
| "collect_seasons F (d # ds) out =
     bindE (iterdir F d) (\<lambda>inside.
       let vids = concat (map (season_videos F) inside) in
       collect_seasons F ds (if vids \<noteq> [] then AList.update (name d) vids out else out))"

definition collect_videos_two_depth :: "filesys \<Rightarrow> path \<Rightarrow> error + (string \<times> path list) list" where
  "collect_videos_two_depth F topd =
     bindE (iterdir F topd) (\<lambda>entries.
       let direct = filter (\<lambda>p. is_file F p \<and> is_video p) entries in
       collect_seasons F (filter (is_dir F) entries) (if direct \<noteq> [] then [([], direct)] else []))"

section \<open>File processing: the decision engine\<close>

text \<open>\<^verbatim>\<open>ask_confirm\<close> reads lines until one is an answer; the end of the input raises.\<close>

fun ask_loop :: "string list \<Rightarrow> error + (bool \<times> string list)" where
  "ask_loop [] = Inl EOFError"
| "ask_loop (l # ls) =
     (let ans = lower (strip l) in
      if ans \<in> set [''y'', ''yes''] then Inr (True, ls)
      else if ans \<in> set [''n'', ''no'', ''''] then Inr (False, ls)
      else ask_loop ls)"

definition ask_confirm :: "env \<Rightarrow> world \<Rightarrow> string \<Rightarrow> error + (bool \<times> world)" where
  "ask_confirm e w prompt =
     (if dry_run (ARGS e)
      then Inr (True, log (''[DRY-RUN] would ask: '' @ prompt @ '' -> auto-YES'') w)
      else bindE (ask_loop (stdin w)) (\<lambda>(ans, rest). Inr (ans, w\<lparr>stdin := rest\<rparr>)))"

text \<open>\<^verbatim>\<open>output_root / src.relative_to(downloads_root)\<close>, the mirrored place of a source.\<close>

definition mirrored :: "path \<Rightarrow> path \<Rightarrow> path \<Rightarrow> error + path" where
  "mirrored src downloads_root output_root =
     bindE (relative_to src downloads_root) (\<lambda>rel. Inr (output_root @ rel))"

definition try_unlink :: "path \<Rightarrow> world \<Rightarrow> world" where
  "try_unlink p w = (case unlink p (fs w) of Inr f \<Rightarrow> w\<lparr>fs := f\<rparr> | Inl _ \<Rightarrow> w)"

text \<open>
  \<^verbatim>\<open>process_movie_file\<close> is one Python function; the model cuts it at its steps, each the
  rest of the function from there on. Lines 289 to 315: the size comparison.
\<close>

definition size_comparison_step ::
  "env \<Rightarrow> world \<Rightarrow> path \<Rightarrow> path \<Rightarrow> path \<Rightarrow> path \<Rightarrow> error + world" where
  "size_comparison_step e w src downloads_root output_root dest_tmp =
     (case (stat_size (fs w) src, stat_size (fs w) dest_tmp) of
        (Inr orig_size, Inr new_size) \<Rightarrow>
          if orig_size \<le> new_size then
            (let w1 = (if \<not> dry_run (ARGS e) then try_unlink dest_tmp w else w) in
             bindE (mirrored src downloads_root output_root) (\<lambda>m.
             bindE (move_safe e w1 src (parent m)) (\<lambda>(moved, w2).
               Inr (log (''Kept ORIGINAL (smaller/equal) -> moved to '' @ path_str moved)
                     (mark w2 src Kept_original_moved
                        (Some (''moved original to '' @ path_str moved)))))))
          else
            bindE (mirrored src downloads_root output_root) (\<lambda>m.
            bindE (with_suffix m ''.mp4'') (\<lambda>d0.
            bindE (if exists (fs w) d0 then unique_dest (fs w) d0 else Inr d0) (\<lambda>dest_final.
              (case (if \<not> dry_run (ARGS e)
                     then bindE (rename (xdev e) dest_tmp dest_final (fs w))
                            (\<lambda>f1. Inr (try_unlink src (w\<lparr>fs := f1\<rparr>)))
                     else Inr w) of
                 Inr w1 \<Rightarrow>
                   Inr (log (''Transcode COMPLETE -> '' @ path_str dest_final)
                         (mark w1 src Done_moved
                            (Some (''moved transcode to '' @ path_str dest_final))))
               | Inl ex \<Rightarrow>
                   Inr (log (''Error moving transcode: '' @ error_str ex)
                         (mark w src Error (Some (''move_failed:'' @ error_str ex))))))))
      | _ \<Rightarrow> Inr (mark w src Error (Some ''stat_failed'')))"

text \<open>Lines 274 to 288: the transcode, and what a failed transcode leaves.\<close>

definition transcode_step :: "env \<Rightarrow> world \<Rightarrow> path \<Rightarrow> path \<Rightarrow> path \<Rightarrow> error + world" where
  "transcode_step e w src downloads_root output_root =
     (let w1 = mark w src Queued (Some ''ready'') in
      bindE (mirrored src downloads_root output_root) (\<lambda>m.
      bindE (with_suffix m (''.mp4'' @ TEMP_SUFFIX)) (\<lambda>dest_tmp.
      bindE (ensure_dir (parent dest_tmp) (fs w1)) (\<lambda>f2.
        let (rc, w3) = transcode_with_handbrake e (w1\<lparr>fs := f2\<rparr>) src dest_tmp in
        if rc \<noteq> 0 then
          (let w4 = log (''HandBrake failed for '' @ name src)
                     (mark w3 src Error (Some (''handbrake_exit_'' @ str_of_int rc))) in
           Inr (if exists (fs w4) dest_tmp then try_unlink dest_tmp w4 else w4))
        else if \<not> exists (fs w3) dest_tmp then
          Inr (log (''No transcode output for '' @ name src) (mark w3 src Error (Some ''no_output'')))
        else size_comparison_step e w3 src downloads_root output_root dest_tmp))))"

text \<open>Lines 265 to 272: the probe, and the move of a file that needs no transcode.\<close>

definition probe_step :: "env \<Rightarrow> world \<Rightarrow> path \<Rightarrow> path \<Rightarrow> path \<Rightarrow> error + world" where
  "probe_step e w src downloads_root output_root =
     (let info = probe_video e w src in
      if should_skip_by_probe info then
        bindE (mirrored src downloads_root output_root) (\<lambda>m.
        bindE (move_safe e w src (parent m)) (\<lambda>(moved, w1).
          Inr (log (''SKIPPED BY PROBE -> moved original to '' @ path_str moved)
                (mark w1 src Skipped_moved (Some (''moved to '' @ path_str moved))))))
      else transcode_step e w src downloads_root output_root)"

text \<open>The statuses the function returns on at once (line 252).\<close>

definition gated :: "status list" where
  "gated = [Processing, Done_moved, Skipped_moved, Kept_original_moved, Copied_season]"

definition process_movie_file :: "env \<Rightarrow> world \<Rightarrow> path \<Rightarrow> path \<Rightarrow> path \<Rightarrow> error + world" where
  "process_movie_file e w src downloads_root output_root =
     (let s = status_of w src in
      if s \<in> set (map Some gated) then Inr w
      else if is_temporary_name (name src) then Inr (log (''Skipping temp file '' @ name src) w)
      else
        bindE (if confirm (ARGS e)
               then ask_confirm e w (''Process file: '' @ path_str src @ ''?'')
               else Inr (True, w)) (\<lambda>(yes, w1).
          if confirm (ARGS e) \<and> \<not> yes then
            Inr (log (''User skipped '' @ name src) (mark w1 src Skipped_by_user (Some ''user skipped'')))
          else
            (let w2 = log (''Processing file: '' @ path_str src) w1;
                 (stable, w3) = file_is_stable e w2 src SIZE_STABLE_SECONDS in
             if \<not> stable then Inr (log (''File not stable yet: '' @ path_str src) w3)
             else probe_step e w3 src downloads_root output_root)))"

section \<open>Shows: per-season processing and the season-level copy\<close>

text \<open>
  The two loops of \<^verbatim>\<open>process_show_topdir\<close> over videos share their body: process the
  video, read its status back, and flag the season when the original was relocated.
  \<open>season_needs_copy\<close> is a Python set; the model keeps it as a list without repetitions.
\<close>

definition relocated_original :: "status list" where
  "relocated_original = [Skipped_moved, Kept_original_moved]"

fun process_videos ::
  "env \<Rightarrow> world \<Rightarrow> path list \<Rightarrow> path \<Rightarrow> path \<Rightarrow> string \<Rightarrow> string list
     \<Rightarrow> error + (string list \<times> world)" where
  "process_videos e w [] downloads_root output_root season_name needs = Inr (needs, w)"
| "process_videos e w (vid # vids) downloads_root output_root season_name needs =
     bindE (process_movie_file e w vid downloads_root output_root) (\<lambda>w1.
       let st = status_of w1 vid in
       process_videos e w1 vids downloads_root output_root season_name
         (if st \<in> set (map Some relocated_original) then List.insert season_name needs else needs))"

fun process_seasons ::
  "env \<Rightarrow> world \<Rightarrow> (string \<times> path list) list \<Rightarrow> path \<Rightarrow> path \<Rightarrow> string list
     \<Rightarrow> error + (string list \<times> world)" where
  "process_seasons e w [] downloads_root output_root needs = Inr (needs, w)"
| "process_seasons e w ((season_name, videos) # rest) downloads_root output_root needs =
     (if season_name = [] then process_seasons e w rest downloads_root output_root needs
      else
        bindE (process_videos e w videos downloads_root output_root season_name needs)
          (\<lambda>(needs1, w1). process_seasons e w1 rest downloads_root output_root needs1))"

definition stamp_copied :: "world \<Rightarrow> path list \<Rightarrow> path \<Rightarrow> world" where
  "stamp_copied w files dest_dir =
     foldl (\<lambda>w1 f. mark w1 f Copied_season (Some (''season copied to '' @ path_str dest_dir)))
       w files"

fun copy_seasons ::
  "env \<Rightarrow> world \<Rightarrow> string list \<Rightarrow> path \<Rightarrow> path \<Rightarrow> path \<Rightarrow> error + world" where
  "copy_seasons e w [] topdir downloads_root output_root = Inr w"
| "copy_seasons e w (sk # sks) topdir downloads_root output_root =
     bindE (relative_to topdir downloads_root) (\<lambda>rel.
       let src_dir = (if sk = [] then topdir else topdir @ [sk]);
           dest_dir = (if sk = [] then output_root @ rel else output_root @ (rel @ [sk]))
       in
       if exists (fs w) src_dir then
         bindE (copy_tree_safe e
                  (log (''Season-level copy: '' @ path_str src_dir @ '' -> '' @ path_str dest_dir) w)
                  src_dir dest_dir) (\<lambda>w1.
           copy_seasons e
             (stamp_copied w1 (filter (\<lambda>f. is_file (fs w1) f \<and> is_video f) (rglob (fs w1) src_dir))
                dest_dir)
             sks topdir downloads_root output_root)
       else copy_seasons e w sks topdir downloads_root output_root)"

text \<open>The two loops over the grouping: the direct files first, then every season.\<close>

definition process_groups ::
  "env \<Rightarrow> world \<Rightarrow> (string \<times> path list) list \<Rightarrow> path \<Rightarrow> path
     \<Rightarrow> error + (string list \<times> world)" where
  "process_groups e w mapping downloads_root output_root =
     bindE (case map_of mapping [] of
              Some direct \<Rightarrow> process_videos e w direct downloads_root output_root [] []
            | None \<Rightarrow> Inr ([], w))
       (\<lambda>(needs1, w1). process_seasons e w1 mapping downloads_root output_root needs1)"

definition process_show_topdir ::
  "env \<Rightarrow> world \<Rightarrow> path \<Rightarrow> path \<Rightarrow> path \<Rightarrow> string option \<Rightarrow> error + world" where
  "process_show_topdir e w topdir downloads_root output_root tmdb_key =
     (let w0 = log (''Processing show topdir: '' @ path_str topdir) w in
      bindE (collect_videos_two_depth (fs w0) topdir) (\<lambda>mapping.
        if mapping = [] then Inr (log ''No videos found inside; skipping.'' w0)
        else
          bindE (process_groups e w0 mapping downloads_root output_root) (\<lambda>(needs2, w2).
          bindE (copy_seasons e w2 needs2 topdir downloads_root output_root) (\<lambda>w3.
            Inr (if \<not> no_posters (ARGS e) \<and> \<not> posters_only (ARGS e)
                 then snd (fetch_and_save_show_poster e w3 (name topdir) output_root tmdb_key
                             downloads_root False)
                 else w3)))))"

section \<open>The main scan loop\<close>

text \<open>
  The body of the loop over the entries of the downloads directory, for one entry. The flag
  is \<^verbatim>\<open>any_found\<close>. The sample is the first video of the first group that has one.
\<close>

fun first_sample :: "(string \<times> path list) list \<Rightarrow> path option" where
  "first_sample [] = None"
| "first_sample ((k, v) # rest) = (case v of [] \<Rightarrow> first_sample rest | x # _ \<Rightarrow> Some x)"

definition scan_entry ::
  "env \<Rightarrow> world \<Rightarrow> path \<Rightarrow> path \<Rightarrow> string option \<Rightarrow> path \<Rightarrow> bool \<Rightarrow> error + (bool \<times> world)" where
  "scan_entry e w downloads output tmdb_key entry any_found =
     (if prefix ''.'' (name entry) then Inr (any_found, w)
      else if posters_only (ARGS e) then
        (if is_dir (fs w) entry then
           bindE (if confirm (ARGS e)
                  then ask_confirm e w (''Fetch poster for '' @ name entry @ ''?'')
                  else Inr (True, w)) (\<lambda>(yes, w1).
             if confirm (ARGS e) \<and> \<not> yes then Inr (True, w1)
             else Inr (True, snd (fetch_and_save_show_poster e w1 (name entry) output tmdb_key
                                    downloads True)))
         else Inr (any_found, w))
      else if is_temporary_name (name entry) then Inr (any_found, w)
      else if is_dir (fs w) entry then
        bindE (collect_videos_two_depth (fs w) entry) (\<lambda>mapping.
          if mapping = [] then Inr (any_found, w)
          else
            (case first_sample mapping of
               None \<Rightarrow>
                 bindE (process_show_topdir e w entry downloads output tmdb_key)
                   (\<lambda>w2. Inr (True, w2))
             | Some sample \<Rightarrow>
                 (let (stable, w1) = file_is_stable e w sample SIZE_STABLE_SECONDS in
                  if \<not> stable then
                    Inr (True, log (''Topdir '' @ name entry @ '' has unstable files; skipping this pass.'') w1)
                  else
                    bindE (process_show_topdir e w1 entry downloads output tmdb_key)
                      (\<lambda>w2. Inr (True, w2)))))
      else if is_file (fs w) entry then
        (if \<not> is_video entry then Inr (any_found, w)
         else bindE (process_movie_file e w entry downloads output) (\<lambda>w1. Inr (True, w1)))
      else Inr (any_found, w))"

text \<open>One pass: the entries are listed once and visited in sorted order.\<close>

fun scan_entries ::
  "env \<Rightarrow> world \<Rightarrow> path \<Rightarrow> path \<Rightarrow> string option \<Rightarrow> path list \<Rightarrow> bool \<Rightarrow> error + (bool \<times> world)" where
  "scan_entries e w downloads output tmdb_key [] any_found = Inr (any_found, w)"
| "scan_entries e w downloads output tmdb_key (entry # rest) any_found =
     bindE (scan_entry e w downloads output tmdb_key entry any_found)
       (\<lambda>(found, w1). scan_entries e w1 downloads output tmdb_key rest found)"

definition scan_pass ::
  "env \<Rightarrow> world \<Rightarrow> path \<Rightarrow> path \<Rightarrow> string option \<Rightarrow> error + (bool \<times> world)" where
  "scan_pass e w downloads output tmdb_key =
     bindE (iterdir (fs w) downloads) (\<lambda>entries.
       scan_entries e w downloads output tmdb_key (sort entries) False)"

section \<open>Facts about the file system operations\<close>

lemma bindE_Inr [simp]: "bindE (Inr x) f = f x"
  by (simp add: bindE_def)

lemma bindE_Inl [simp]: "bindE (Inl x) f = Inl x"
  by (simp add: bindE_def)

lemma bindE_eq_Inr: "bindE m f = Inr y \<longleftrightarrow> (\<exists>x. m = Inr x \<and> f x = Inr y)"
  by (cases m) simp_all

lemma node_at_update:
  "k \<noteq> [] \<Longrightarrow> node_at (AList.update k v F) q = (if q = k then Some v else node_at F q)"
  by (simp add: node_at_def update_conv')

lemma node_at_delete:
  "node_at (AList.delete k F) q = (if q = k \<and> k \<noteq> [] then None else node_at F q)"
  by (simp add: node_at_def delete_conv')

lemma ensure_dir_node_at:
  "ensure_dir p F = Inr F' \<Longrightarrow>
   node_at F' q = (case node_at F q of Some n \<Rightarrow> Some n
                   | None \<Rightarrow> if prefix q p then node_at F' q else None)"
proof (induction p F arbitrary: F' rule: ensure_dir.induct)
  case (1 p F)
  show ?case
  proof (cases "node_at F p")
    case (Some n)
    with "1.prems" have "F' = F"
      by (subst (asm) ensure_dir.simps) (cases n; simp)
    then show ?thesis by (simp split: option.splits)
  next
    case None
    then have p: "p \<noteq> []" by (auto simp add: node_at_def)
    show ?thesis
    proof (cases "node_at F (parent p)")
      case pn: None
      from "1.prems" None pn obtain F1 where
        r: "ensure_dir (parent p) F = Inr F1" and F': "F' = AList.update p Dir F1"
        by (subst (asm) ensure_dir.simps) (auto split: sum.splits)
      have pp: "prefix q (parent p) \<Longrightarrow> prefix q p"
        by (metis parent_def prefix_order.trans prefixeq_butlast)
      from "1.IH" [OF None pn r] F' p pp None show ?thesis
        by (auto simp add: node_at_update split: option.splits if_splits)
    next
      case (Some n)
      with "1.prems" None have "F' = AList.update p Dir F"
        by (subst (asm) ensure_dir.simps) (cases n; simp)
      with p None show ?thesis
        by (auto simp add: node_at_update split: option.splits)
    qed
  qed
qed

lemma ensure_dir_is_dir: "ensure_dir p F = Inr F' \<Longrightarrow> is_dir F' p"
proof -
  assume a: "ensure_dir p F = Inr F'"
  show ?thesis
  proof (cases "node_at F p")
    case (Some n)
    with a have "F' = F \<and> n = Dir"
      by (subst (asm) ensure_dir.simps) (cases n; simp)
    with Some show ?thesis by (simp add: is_dir_def)
  next
    case None
    then have p: "p \<noteq> []" by (auto simp add: node_at_def)
    from a None have "\<exists>F1. F' = AList.update p Dir F1"
      by (subst (asm) ensure_dir.simps) (auto split: option.splits node.splits sum.splits)
    with p show ?thesis by (auto simp add: is_dir_def node_at_update)
  qed
qed

lemma ensure_dir_existing: "is_dir F p \<Longrightarrow> ensure_dir p F = Inr F"
  by (subst ensure_dir.simps) (simp add: is_dir_def)

lemma unique_loop_free: "\<not> exists F (unique_loop F dest base suf i)"
  by (induction F dest base suf i rule: unique_loop.induct)
     (subst unique_loop.simps, simp add: Let_def)

lemma unique_loop_form:
  "\<exists>j\<ge>i. unique_loop F dest base suf i = candidate dest base suf j
     \<and> (\<forall>k. i \<le> k \<and> k < j \<longrightarrow> exists F (candidate dest base suf k))"
proof (induction F dest base suf i rule: unique_loop.induct)
  case (1 F dest base suf i)
  show ?case
  proof (cases "exists F (candidate dest base suf i)")
    case False
    then have "unique_loop F dest base suf i = candidate dest base suf i"
      by (subst unique_loop.simps) (simp add: Let_def)
    then show ?thesis by (intro exI [of _ i]) auto
  next
    case True
    then have u: "unique_loop F dest base suf i = unique_loop F dest base suf (i + 1)"
      by (subst unique_loop.simps) (simp add: Let_def)
    from "1.IH" [OF refl] True obtain j where j: "j \<ge> i + 1"
      "unique_loop F dest base suf (i + 1) = candidate dest base suf j"
      "\<forall>k. i + 1 \<le> k \<and> k < j \<longrightarrow> exists F (candidate dest base suf k)" by auto
    have "\<forall>k. i \<le> k \<and> k < j \<longrightarrow> exists F (candidate dest base suf k)"
    proof (intro allI impI)
      fix k assume k: "i \<le> k \<and> k < j"
      show "exists F (candidate dest base suf k)"
      proof (cases "k = i")
        case True
        with \<open>exists F (candidate dest base suf i)\<close> show ?thesis by simp
      next
        case False
        with k have "i + 1 \<le> k \<and> k < j" by simp
        with j(3) show ?thesis by blast
      qed
    qed
    with j u show ?thesis by (intro exI [of _ j]) simp
  qed
qed

section \<open>Example environments and worlds\<close>

text \<open>
  Concrete inputs for the instances below. In \<open>still_env\<close> nothing else writes to the
  disk, the prober knows nothing, and the transcoder writes a 300-byte artifact and exits
  with 0. In \<open>growing_env\<close> every file grows while the program sleeps.
\<close>

definition still_env :: env where
  "still_env =
     \<lparr>ARGS = \<lparr>dry_run = False, confirm = False, no_posters = True, posters_only = False\<rparr>,
      background = (\<lambda>t d F. F),
      ffprobe = (\<lambda>F p. None),
      handbrake = (\<lambda>F s d. (0, AList.update d (File 300 7) F)),
      xdev = (\<lambda>a b. False),
      tmdb = (\<lambda>n. NoMatch)\<rparr>"

definition growing_env :: env where
  "growing_env =
     still_env\<lparr>background :=
       (\<lambda>t d F. map (\<lambda>(k, n). (k, case n of File s c \<Rightarrow> File (s + d) c | Dir \<Rightarrow> Dir)) F)\<rparr>"

definition world0 :: "filesys \<Rightarrow> world" where
  "world0 F = \<lparr>fs = F, db = Map.empty, clock = 0, stdin = [], logged = [], hb_runs = []\<rparr>"

section \<open>The stability detector\<close>

text \<open>
  Claim C6. \<^verbatim>\<open>file_is_stable\<close> answers stable exactly when both size samples exist (neither
  stat raises file-not-found), the two samples are equal, and the size is greater than
  zero. The second sample is taken in the world after the sleep. So a file that is missing
  at either sample, and a file of size zero, are never reported stable.
\<close>

theorem file_is_stable_iff:
  "fst (file_is_stable e w p wait) =
     (\<exists>s. stat_size (fs w) p = Inr s \<and> stat_size (fs (sleep e wait w)) p = Inr s \<and> 0 < s)"
  by (auto simp add: file_is_stable_def Let_def split: sum.splits)

theorem file_is_stable_witness:
  "fst (file_is_stable still_env (world0 [([''d'', ''a.mkv''], File 5 1)]) [''d'', ''a.mkv''] 30)
   \<and> \<not> fst (file_is_stable growing_env (world0 [([''d'', ''a.mkv''], File 5 1)]) [''d'', ''a.mkv''] 30)
   \<and> \<not> fst (file_is_stable still_env (world0 [([''d'', ''a.mkv''], File 0 1)]) [''d'', ''a.mkv''] 30)
   \<and> \<not> fst (file_is_stable still_env (world0 []) [''d'', ''a.mkv''] 30)"
  using file_is_stable_iff [of still_env "world0 [([''d'', ''a.mkv''], File 5 1)]" "[''d'', ''a.mkv'']" 30]
  by (simp add: file_is_stable_def still_env_def growing_env_def world0_def sleep_def
        stat_size_def node_at_def)

section \<open>Collision-safe relocation\<close>

lemma name_snoc [simp]: "name (d @ [n]) = n"
  by (simp add: name_def)

lemma unique_dest_props:
  assumes "name d \<noteq> []"
  shows "\<exists>dest. unique_dest F d = Inr dest \<and> \<not> exists F dest \<and> butlast dest = butlast d
           \<and> dest \<noteq> []
           \<and> (if exists F d
               then \<exists>i\<ge>1. dest = candidate d (stem d) (suffix d) i
                      \<and> (\<forall>k. 1 \<le> k \<and> k < i \<longrightarrow> exists F (candidate d (stem d) (suffix d) k))
               else dest = d)"
proof (cases "exists F d")
  case False
  with assms show ?thesis by (auto simp add: unique_dest_def name_def)
next
  case True
  from unique_loop_form [of 1 F d "stem d" "suffix d"] obtain j where
    j: "j \<ge> 1" "unique_loop F d (stem d) (suffix d) 1 = candidate d (stem d) (suffix d) j"
       "\<forall>k. 1 \<le> k \<and> k < j \<longrightarrow> exists F (candidate d (stem d) (suffix d) k)" by blast
  have "\<not> exists F (unique_loop F d (stem d) (suffix d) 1)" by (rule unique_loop_free)
  with True assms j show ?thesis
    by (auto simp add: unique_dest_def candidate_def)
qed

lemma move_safe_file:
  assumes src: "node_at (fs w) src = Some (File s c)"
    and ed: "ensure_dir dest_dir (fs w) = Inr f1"
    and ud: "unique_dest f1 (join dest_dir (name src)) = Inr dest"
    and free: "\<not> exists f1 dest" and par: "butlast dest = dest_dir" and ne: "dest \<noteq> []"
  shows "\<exists>w'. move_safe e w src dest_dir = Inr (dest, w')
           \<and> db w' = db w \<and> clock w' = clock w \<and> stdin w' = stdin w \<and> hb_runs w' = hb_runs w
           \<and> (if dry_run (ARGS e)
               then fs w' = f1
                 \<and> logged w' = logged w @ [''[DRY-RUN] Would move '' @ path_str src @ '' -> '' @ path_str dest]
               else logged w' = logged w
                 \<and> node_at (fs w') dest = Some (File s c) \<and> node_at (fs w') src = None
                 \<and> (\<forall>q. q \<noteq> src \<and> q \<noteq> dest \<longrightarrow> node_at (fs w') q = node_at f1 q))"
proof (cases "dry_run (ARGS e)")
  case True
  with ed ud show ?thesis by (simp add: move_safe_def log_def)
next
  case False
  from src ensure_dir_node_at [OF ed, of src] have s1: "node_at f1 src = Some (File s c)" by simp
  from src have sne: "src \<noteq> []" by (auto simp add: node_at_def)
  from s1 free have neq: "dest \<noteq> src" by (auto simp add: exists_def)
  from ensure_dir_is_dir [OF ed] par have pd: "is_dir f1 (parent dest)" by (simp add: parent_def)
  then have pe: "exists f1 (parent dest)" by (simp add: is_dir_def exists_def)
  from free have nd: "\<not> is_dir f1 dest" by (simp add: is_dir_def exists_def)
  show ?thesis
  proof (cases "xdev e src dest")
    case x: False
    have "rename (xdev e) src dest f1 = Inr (AList.update dest (File s c) (AList.delete src f1))"
      using s1 sne ne x pd pe nd neq by (simp add: rename_def)
    with False ed ud ne sne neq show ?thesis
      by (simp add: move_safe_def node_at_update node_at_delete)
  next
    case x: True
    have r: "rename (xdev e) src dest f1 = Inl OSError"
      using s1 x by (simp add: rename_def)
    have c2: "copy2 src dest f1 = Inr (AList.update dest (File s c) f1)"
      using s1 nd pd neq by (simp add: copy2_def)
    have ul: "unlink src (AList.update dest (File s c) f1) = Inr (AList.delete src (AList.update dest (File s c) f1))"
      using s1 neq ne by (simp add: unlink_def node_at_update)
    from False ed ud ne sne neq r c2 ul show ?thesis
      by (simp add: move_safe_def node_at_update node_at_delete)
  qed
qed

text \<open>
  Claim C5. \<^verbatim>\<open>move_safe\<close> never overwrites. For a source that is a file, once the
  destination directory could be made, the call returns a destination inside that
  directory which did not exist before; it is \<open>dest_dir/name\<close> when that is free, and
  otherwise \<open>dest_dir/stem_i.suffix\<close> for the least \<open>i \<ge> 1\<close> whose name is free. Every
  other path that existed keeps its node, and outside dry-run the source's node arrives
  at the destination and the source is gone. In particular \<^verbatim>\<open>movie.mp4\<close> moved into a
  directory that holds \<^verbatim>\<open>movie.mp4\<close> and no \<^verbatim>\<open>movie_1.mp4\<close> becomes \<^verbatim>\<open>movie_1.mp4\<close>.
\<close>

theorem move_safe_never_overwrites:
  assumes "is_file (fs w) src" and "name src \<noteq> []" and "ensure_dir dest_dir (fs w) = Inr f1"
  shows "\<exists>dest w'. move_safe e w src dest_dir = Inr (dest, w')
      \<and> \<not> exists (fs w) dest \<and> parent dest = dest_dir
      \<and> (if exists (fs w) (dest_dir @ [name src])
          then \<exists>i\<ge>1. dest = dest_dir @ [stem src @ ''_'' @ str_of_nat i @ suffix src]
                 \<and> (\<forall>k. 1 \<le> k \<and> k < i \<longrightarrow>
                        exists (fs w) (dest_dir @ [stem src @ ''_'' @ str_of_nat k @ suffix src]))
          else dest = dest_dir @ [name src])
      \<and> (\<forall>q. q \<noteq> src \<and> exists (fs w) q \<longrightarrow> node_at (fs w') q = node_at (fs w) q)
      \<and> (\<not> dry_run (ARGS e) \<longrightarrow> node_at (fs w') dest = node_at (fs w) src \<and> \<not> exists (fs w') src)
      \<and> (name src = ''movie.mp4'' \<and> exists (fs w) (dest_dir @ [''movie.mp4''])
           \<and> \<not> exists (fs w) (dest_dir @ [''movie_1.mp4'']) \<longrightarrow> dest = dest_dir @ [''movie_1.mp4''])"
proof -
  from assms(1) obtain s c where src: "node_at (fs w) src = Some (File s c)"
    by (auto simp add: is_file_def split: option.splits node.splits)
  let ?d0 = "dest_dir @ [name src]"
  have j: "join dest_dir (name src) = ?d0" using assms(2) by (simp add: join_def)
  have same: "exists f1 (dest_dir @ [n]) = exists (fs w) (dest_dir @ [n])" for n
    using ensure_dir_node_at [OF assms(3), of "dest_dir @ [n]"]
    by (auto simp add: exists_def split: option.splits)
  have st: "stem ?d0 = stem src" "suffix ?d0 = suffix src"
    by (simp_all add: stem_def suffix_def)
  have cand: "candidate ?d0 b x k = dest_dir @ [b @ ''_'' @ str_of_nat k @ x]" for b x k
    by (simp add: candidate_def)
  from unique_dest_props [of ?d0 f1] assms(2) obtain dest where
    ud: "unique_dest f1 ?d0 = Inr dest" and free: "\<not> exists f1 dest"
    and par: "butlast dest = dest_dir" and ne: "dest \<noteq> []"
    and form: "if exists f1 ?d0
               then \<exists>i\<ge>1. dest = candidate ?d0 (stem ?d0) (suffix ?d0) i
                      \<and> (\<forall>k. 1 \<le> k \<and> k < i \<longrightarrow> exists f1 (candidate ?d0 (stem ?d0) (suffix ?d0) k))
               else dest = ?d0"
    by auto
  have "\<exists>w'. move_safe e w src dest_dir = Inr (dest, w')
          \<and> (if dry_run (ARGS e) then fs w' = f1
              else node_at (fs w') dest = Some (File s c) \<and> node_at (fs w') src = None
                 \<and> (\<forall>q. q \<noteq> src \<and> q \<noteq> dest \<longrightarrow> node_at (fs w') q = node_at f1 q))"
  proof -
    from ud j have "unique_dest f1 (join dest_dir (name src)) = Inr dest" by simp
    from move_safe_file [OF src assms(3) this free par ne, of e] obtain w' where
      "move_safe e w src dest_dir = Inr (dest, w')"
      "if dry_run (ARGS e)
               then fs w' = f1
                 \<and> logged w' = logged w @ [''[DRY-RUN] Would move '' @ path_str src @ '' -> '' @ path_str dest]
               else logged w' = logged w
                 \<and> node_at (fs w') dest = Some (File s c) \<and> node_at (fs w') src = None
                 \<and> (\<forall>q. q \<noteq> src \<and> q \<noteq> dest \<longrightarrow> node_at (fs w') q = node_at f1 q)"
      by blast
    then show ?thesis by (cases "dry_run (ARGS e)") (intro exI [of _ w'], simp)+
  qed
  then obtain w' where
    ms: "move_safe e w src dest_dir = Inr (dest, w')"
    and eff: "if dry_run (ARGS e) then fs w' = f1
              else node_at (fs w') dest = Some (File s c) \<and> node_at (fs w') src = None
                 \<and> (\<forall>q. q \<noteq> src \<and> q \<noteq> dest \<longrightarrow> node_at (fs w') q = node_at f1 q)"
    by blast
  have free0: "\<not> exists (fs w) dest"
    using free ensure_dir_node_at [OF assms(3), of dest]
    by (auto simp add: exists_def split: option.splits)
  have keep1: "exists (fs w) q \<Longrightarrow> node_at f1 q = node_at (fs w) q" for q
    using ensure_dir_node_at [OF assms(3), of q] by (auto simp add: exists_def)
  have keep: "\<forall>q. q \<noteq> src \<and> exists (fs w) q \<longrightarrow> node_at (fs w') q = node_at (fs w) q"
  proof (intro allI impI)
    fix q assume q: "q \<noteq> src \<and> exists (fs w) q"
    with free0 have "q \<noteq> dest" by auto
    with q eff keep1 [of q] show "node_at (fs w') q = node_at (fs w) q"
      by (auto split: if_splits)
  qed
  have moved: "\<not> dry_run (ARGS e) \<longrightarrow> node_at (fs w') dest = node_at (fs w) src \<and> \<not> exists (fs w') src"
    using eff src by (auto simp add: exists_def)
  have form': "if exists (fs w) ?d0
          then \<exists>i\<ge>1. dest = dest_dir @ [stem src @ ''_'' @ str_of_nat i @ suffix src]
                 \<and> (\<forall>k. 1 \<le> k \<and> k < i \<longrightarrow>
                        exists (fs w) (dest_dir @ [stem src @ ''_'' @ str_of_nat k @ suffix src]))
          else dest = ?d0"
    using form by (simp only: same st cand)
  have movie: "name src = ''movie.mp4'' \<and> exists (fs w) (dest_dir @ [''movie.mp4''])
           \<and> \<not> exists (fs w) (dest_dir @ [''movie_1.mp4'']) \<longrightarrow> dest = dest_dir @ [''movie_1.mp4'']"
  proof
    assume a: "name src = ''movie.mp4'' \<and> exists (fs w) (dest_dir @ [''movie.mp4''])
           \<and> \<not> exists (fs w) (dest_dir @ [''movie_1.mp4''])"
    then have sx: "stem src = ''movie''" "suffix src = ''.mp4''"
      by (simp_all add: stem_def suffix_def stem_of_def suffix_of_def after_last_dot_def)
    have one: "str_of_nat 1 = ''1''" by (simp add: str_of_nat.simps digit_char_def)
    from form' a sx obtain i where i: "i \<ge> 1" "dest = dest_dir @ [''movie_'' @ str_of_nat i @ ''.mp4'']"
      "\<forall>k. 1 \<le> k \<and> k < i \<longrightarrow> exists (fs w) (dest_dir @ [''movie_'' @ str_of_nat k @ ''.mp4''])"
      by auto
    have "i = 1"
    proof (rule ccontr)
      assume "i \<noteq> 1"
      with i(1) have "1 \<le> (1::nat) \<and> 1 < i" by simp
      with i(3) have "exists (fs w) (dest_dir @ [''movie_'' @ str_of_nat 1 @ ''.mp4''])" by blast
      with a one show False by simp
    qed
    with i(2) one show "dest = dest_dir @ [''movie_1.mp4'']" by simp
  qed
  from ms free0 par form' keep moved movie show ?thesis
    by (intro exI [of _ dest] exI [of _ w']) (simp add: parent_def)
qed

definition shelf :: filesys where
  "shelf = [([''in''], Dir), ([''out''], Dir), ([''in'', ''movie.mp4''], File 500 1),
            ([''out'', ''movie.mp4''], File 400 2)]"

theorem move_safe_witness:
  "is_file (fs (world0 shelf)) [''in'', ''movie.mp4''] \<and> name [''in'', ''movie.mp4''] \<noteq> []
   \<and> ensure_dir [''out''] (fs (world0 shelf)) = Inr shelf
   \<and> (\<exists>w'. move_safe still_env (world0 shelf) [''in'', ''movie.mp4''] [''out'']
             = Inr ([''out'', ''movie_1.mp4''], w')
        \<and> node_at (fs w') [''out'', ''movie.mp4''] = Some (File 400 2)
        \<and> node_at (fs w') [''out'', ''movie_1.mp4''] = Some (File 500 1)
        \<and> node_at (fs w') [''in'', ''movie.mp4''] = None)"
proof -
  have a: "is_file (fs (world0 shelf)) [''in'', ''movie.mp4'']"
    by (simp add: world0_def shelf_def is_file_def node_at_def)
  have b: "name [''in'', ''movie.mp4''] \<noteq> []" by (simp add: name_def)
  have c: "ensure_dir [''out''] (fs (world0 shelf)) = Inr shelf"
    by (simp add: world0_def shelf_def ensure_dir.simps node_at_def)
  have x: "exists (fs (world0 shelf)) [''out'', ''movie.mp4'']"
    "\<not> exists (fs (world0 shelf)) [''out'', ''movie_1.mp4'']"
    "exists (fs (world0 shelf)) [''out'', ''movie.mp4'']"
    "\<not> dry_run (ARGS still_env)"
    by (simp_all add: world0_def shelf_def exists_def node_at_def still_env_def)
  have n: "node_at (fs (world0 shelf)) [''out'', ''movie.mp4''] = Some (File 400 2)"
    "node_at (fs (world0 shelf)) [''in'', ''movie.mp4''] = Some (File 500 1)"
    by (simp_all add: world0_def shelf_def node_at_def)
  from move_safe_never_overwrites [OF a b c, of still_env] x n b show ?thesis
    using a c by (auto simp add: name_def exists_def)
qed

lemma move_safe_file_total:
  assumes "node_at (fs w) src = Some (File s c)" and "name src \<noteq> []"
    and "ensure_dir dest_dir (fs w) = Inr f1"
  shows "\<exists>dest w'. move_safe e w src dest_dir = Inr (dest, w')
           \<and> \<not> exists f1 dest \<and> \<not> exists (fs w) dest \<and> parent dest = dest_dir \<and> dest \<noteq> []
           \<and> db w' = db w \<and> clock w' = clock w \<and> stdin w' = stdin w \<and> hb_runs w' = hb_runs w
           \<and> (if dry_run (ARGS e)
               then fs w' = f1
                 \<and> logged w' = logged w @ [''[DRY-RUN] Would move '' @ path_str src @ '' -> '' @ path_str dest]
               else logged w' = logged w
                 \<and> node_at (fs w') dest = Some (File s c) \<and> node_at (fs w') src = None
                 \<and> (\<forall>q. q \<noteq> src \<and> q \<noteq> dest \<longrightarrow> node_at (fs w') q = node_at f1 q))"
proof -
  have j: "join dest_dir (name src) = dest_dir @ [name src]" using assms(2) by (simp add: join_def)
  from unique_dest_props [of "dest_dir @ [name src]" f1] assms(2) obtain dest where
    ud: "unique_dest f1 (dest_dir @ [name src]) = Inr dest" and free: "\<not> exists f1 dest"
    and par: "butlast dest = dest_dir" and ne: "dest \<noteq> []"
    by auto
  from ud j have ud': "unique_dest f1 (join dest_dir (name src)) = Inr dest" by simp
  have free0: "\<not> exists (fs w) dest"
    using free ensure_dir_node_at [OF assms(3), of dest]
    by (auto simp add: exists_def split: option.splits)
  from move_safe_file [OF assms(1) assms(3) ud' free par ne, of e] obtain w' where
    "move_safe e w src dest_dir = Inr (dest, w')
           \<and> db w' = db w \<and> clock w' = clock w \<and> stdin w' = stdin w \<and> hb_runs w' = hb_runs w
           \<and> (if dry_run (ARGS e)
               then fs w' = f1
                 \<and> logged w' = logged w @ [''[DRY-RUN] Would move '' @ path_str src @ '' -> '' @ path_str dest]
               else logged w' = logged w
                 \<and> node_at (fs w') dest = Some (File s c) \<and> node_at (fs w') src = None
                 \<and> (\<forall>q. q \<noteq> src \<and> q \<noteq> dest \<longrightarrow> node_at (fs w') q = node_at f1 q))"
    by blast
  with free free0 par ne show ?thesis
    by (intro exI [of _ dest] exI [of _ w']) (simp add: parent_def)
qed

lemma status_of_mark [simp]: "status_of (mark w p st nt) q = (if q = p then Some st else status_of w q)"
  by (simp add: status_of_def mark_def split: option.splits)

lemma status_of_log [simp]: "status_of (log m w) q = status_of w q"
  by (simp add: status_of_def log_def)

lemma fs_log [simp]: "fs (log m w) = fs w"
  by (simp add: log_def)

lemma fs_mark [simp]: "fs (mark w p st nt) = fs w"
  by (simp add: mark_def)

lemma hb_runs_log [simp]: "hb_runs (log m w) = hb_runs w"
  by (simp add: log_def)

lemma hb_runs_mark [simp]: "hb_runs (mark w p st nt) = hb_runs w"
  by (simp add: mark_def)

lemma db_log [simp]: "db (log m w) = db w"
  by (simp add: log_def)

lemma status_of_cong: "db w' = db w \<Longrightarrow> status_of w' p = status_of w p"
  by (simp add: status_of_def)

section \<open>The skip policy\<close>

text \<open>
  Claim C3. The skip predicate holds exactly when the container format names MP4 (the
  lower-cased format string contains \<^verbatim>\<open>mp4\<close>), the lower-cased video codec is \<^verbatim>\<open>h264\<close> or
  \<^verbatim>\<open>avc1\<close>, and the width is at most 854; an unknown probe result never matches. A probe
  result with width 1920 sends the file on to the transcode step whatever its codec and
  container. A probe result of container \<^verbatim>\<open>mp4\<close>, codec \<^verbatim>\<open>h264\<close> and width 720 ends,
  outside dry-run and once the destination directory could be made, in status
  \<open>skipped_moved\<close> with the node of the source, unchanged, at a destination in the mirrored
  directory that was free, the source gone and no transcoder run.
\<close>

theorem skip_policy:
  "(should_skip_by_probe (Some i) =
     (contains ''mp4'' (lower (or_empty (format_name i)))
      \<and> lower (or_empty (vcodec i)) \<in> {''h264'', ''avc1''} \<and> width i \<le> 854))
   \<and> should_skip_by_probe None = False
   \<and> (probe_video e w src = Some i \<and> width i = 1920 \<longrightarrow>
     probe_step e w src downloads_root output_root = transcode_step e w src downloads_root output_root)
   \<and> (probe_video e w src = Some i \<and> format_name i = Some ''mp4'' \<and> vcodec i = Some ''h264''
     \<and> width i = 720 \<and> \<not> dry_run (ARGS e) \<and> is_file (fs w) src \<and> name src \<noteq> []
     \<and> mirrored src downloads_root output_root = Inr m \<and> ensure_dir (parent m) (fs w) = Inr f1 \<longrightarrow>
     (\<exists>w' dest. probe_step e w src downloads_root output_root = Inr w'
        \<and> status_of w' src = Some Skipped_moved
        \<and> parent dest = parent m \<and> \<not> exists (fs w) dest
        \<and> node_at (fs w') dest = node_at (fs w) src \<and> \<not> exists (fs w') src
        \<and> hb_runs w' = hb_runs w))"
proof (intro conjI)
  show "should_skip_by_probe (Some i) =
     (contains ''mp4'' (lower (or_empty (format_name i)))
      \<and> lower (or_empty (vcodec i)) \<in> {''h264'', ''avc1''} \<and> width i \<le> 854)"
    by (simp add: should_skip_by_probe_def Let_def)
  show "should_skip_by_probe None = False"
    by (simp add: should_skip_by_probe_def)
  show "probe_video e w src = Some i \<and> width i = 1920 \<longrightarrow>
     probe_step e w src downloads_root output_root = transcode_step e w src downloads_root output_root"
    by (simp add: probe_step_def should_skip_by_probe_def Let_def)
  show "probe_video e w src = Some i \<and> format_name i = Some ''mp4'' \<and> vcodec i = Some ''h264''
     \<and> width i = 720 \<and> \<not> dry_run (ARGS e) \<and> is_file (fs w) src \<and> name src \<noteq> []
     \<and> mirrored src downloads_root output_root = Inr m \<and> ensure_dir (parent m) (fs w) = Inr f1 \<longrightarrow>
     (\<exists>w' dest. probe_step e w src downloads_root output_root = Inr w'
        \<and> status_of w' src = Some Skipped_moved
        \<and> parent dest = parent m \<and> \<not> exists (fs w) dest
        \<and> node_at (fs w') dest = node_at (fs w) src \<and> \<not> exists (fs w') src
        \<and> hb_runs w' = hb_runs w)"
  proof
    assume a: "probe_video e w src = Some i \<and> format_name i = Some ''mp4'' \<and> vcodec i = Some ''h264''
     \<and> width i = 720 \<and> \<not> dry_run (ARGS e) \<and> is_file (fs w) src \<and> name src \<noteq> []
     \<and> mirrored src downloads_root output_root = Inr m \<and> ensure_dir (parent m) (fs w) = Inr f1"
    then obtain s c where src: "node_at (fs w) src = Some (File s c)"
      by (auto simp add: is_file_def split: option.splits node.splits)
    from a have skip: "should_skip_by_probe (probe_video e w src)"
      by (simp add: should_skip_by_probe_def or_empty_def lower_def lower_char_def)
    from a move_safe_file_total [OF src, of "parent m" f1 e] obtain dest w1 where
      ms: "move_safe e w src (parent m) = Inr (dest, w1)"
      and p: "\<not> exists (fs w) dest" "parent dest = parent m" "db w1 = db w" "hb_runs w1 = hb_runs w"
        "node_at (fs w1) dest = Some (File s c)" "node_at (fs w1) src = None"
      by auto
    let ?w' = "log (''SKIPPED BY PROBE -> moved original to '' @ path_str dest)
                (mark w1 src Skipped_moved (Some (''moved to '' @ path_str dest)))"
    from a skip ms have "probe_step e w src downloads_root output_root = Inr ?w'"
      by (simp add: probe_step_def)
    with p src show "\<exists>w' dest. probe_step e w src downloads_root output_root = Inr w'
        \<and> status_of w' src = Some Skipped_moved
        \<and> parent dest = parent m \<and> \<not> exists (fs w) dest
        \<and> node_at (fs w') dest = node_at (fs w) src \<and> \<not> exists (fs w') src
        \<and> hb_runs w' = hb_runs w"
      by (intro exI [of _ ?w'] exI [of _ dest]) (simp add: exists_def)
  qed
qed

definition mp4_env :: env where
  "mp4_env =
     still_env\<lparr>ffprobe :=
       (\<lambda>F p. Some \<lparr>vcodec = Some ''h264'', width = 720, height = 480,
                      format_name = Some ''mp4'', size = 500\<rparr>)\<rparr>"

definition shelf_info :: probe_info where
  "shelf_info = \<lparr>vcodec = Some ''h264'', width = 720, height = 480,
                  format_name = Some ''mp4'', size = 500\<rparr>"

theorem skip_policy_witness:
  "should_skip_by_probe (Some shelf_info)
   \<and> probe_video mp4_env (world0 shelf) [''in'', ''movie.mp4''] = Some shelf_info
   \<and> (\<exists>w'. probe_step mp4_env (world0 shelf) [''in'', ''movie.mp4''] [''in''] [''out''] = Inr w'
         \<and> status_of w' [''in'', ''movie.mp4''] = Some Skipped_moved
         \<and> node_at (fs w') [''in'', ''movie.mp4''] = None
         \<and> hb_runs w' = [])"
proof -
  have a: "probe_video mp4_env (world0 shelf) [''in'', ''movie.mp4''] = Some shelf_info"
    "format_name shelf_info = Some ''mp4''" "vcodec shelf_info = Some ''h264''"
    "width shelf_info = 720" "\<not> dry_run (ARGS mp4_env)"
    by (simp_all add: probe_video_def mp4_env_def shelf_info_def still_env_def)
  have b: "is_file (fs (world0 shelf)) [''in'', ''movie.mp4'']" "name [''in'', ''movie.mp4''] \<noteq> []"
    "mirrored [''in'', ''movie.mp4''] [''in''] [''out''] = Inr [''out'', ''movie.mp4'']"
    "ensure_dir (parent [''out'', ''movie.mp4'']) (fs (world0 shelf)) = Inr shelf"
    "hb_runs (world0 shelf) = []"
    by (simp_all add: world0_def shelf_def is_file_def node_at_def name_def mirrored_def
          relative_to_def parent_def ensure_dir.simps)
  from skip_policy [of shelf_info mp4_env "world0 shelf" "[''in'', ''movie.mp4'']" "[''in'']" "[''out'']"
      "[''out'', ''movie.mp4'']" shelf] a b
  show ?thesis by (auto simp add: exists_def or_empty_def lower_def lower_char_def)
qed

section \<open>Facts about names\<close>

lemma no_dot_after: "CHR ''.'' \<notin> set (after_last_dot n)"
  by (auto simp add: after_last_dot_def dest: set_takeWhileD)

lemma split_last_dot:
  assumes "CHR ''.'' \<in> set n"
  shows "\<exists>r. n = r @ CHR ''.'' # after_last_dot n"
proof -
  let ?P = "\<lambda>c. c \<noteq> CHR ''.''"
  from assms have ne: "dropWhile ?P (rev n) \<noteq> []" by (simp add: dropWhile_eq_Nil_conv)
  then have h: "\<not> ?P (hd (dropWhile ?P (rev n)))" by (rule hd_dropWhile)
  from ne obtain x t where xt: "dropWhile ?P (rev n) = x # t"
    by (cases "dropWhile ?P (rev n)") simp_all
  from h xt have "\<not> ?P x" by simp
  then have x: "x = CHR ''.''" by simp
  have "rev n = takeWhile ?P (rev n) @ dropWhile ?P (rev n)" by simp
  with xt x have "rev n = takeWhile ?P (rev n) @ CHR ''.'' # t" by simp
  then have "rev (rev n) = rev (takeWhile ?P (rev n) @ CHR ''.'' # t)" by simp
  then have "n = rev t @ CHR ''.'' # after_last_dot n" by (simp add: after_last_dot_def)
  then show ?thesis by blast
qed

lemma stem_suffix: "stem_of n @ suffix_of n = n"
proof (cases "suffix_of n = []")
  case True
  then show ?thesis by (simp add: stem_of_def)
next
  case False
  then have s: "suffix_of n = CHR ''.'' # after_last_dot n" and d: "CHR ''.'' \<in> set n"
    by (auto simp add: suffix_of_def Let_def split: if_splits)
  from split_last_dot [OF d] obtain r where r: "n = r @ CHR ''.'' # after_last_dot n" by blast
  have "stem_of n = take (length n - length (CHR ''.'' # after_last_dot n)) n"
    by (simp add: stem_of_def s)
  also have "\<dots> = take (length r) (r @ CHR ''.'' # after_last_dot n)"
    by (subst (1 2) r) simp
  also have "\<dots> = r" by simp
  finally have "stem_of n = r" .
  with s r show ?thesis by simp
qed

lemma suffix_one_dot: "suffix_of n = CHR ''.'' # x \<Longrightarrow> CHR ''.'' \<notin> set x"
  using no_dot_after [of n] by (auto simp add: suffix_of_def Let_def split: if_splits)

lemma temp_name_differs: "stem_of n @ ''.mp4'' @ TEMP_SUFFIX \<noteq> n"
proof
  assume "stem_of n @ ''.mp4'' @ TEMP_SUFFIX = n"
  then have "stem_of n @ ''.mp4'' @ TEMP_SUFFIX = stem_of n @ suffix_of n"
    by (simp only: stem_suffix)
  then have "suffix_of n = CHR ''.'' # ''mp4'' @ TEMP_SUFFIX" by simp
  from suffix_one_dot [OF this] show False by (simp add: TEMP_SUFFIX_def)
qed

lemma temp_name_not_candidate:
  "stem_of n @ ''.mp4'' @ TEMP_SUFFIX \<noteq> stem_of n @ ''_'' @ k @ x"
proof
  assume "stem_of n @ ''.mp4'' @ TEMP_SUFFIX = stem_of n @ ''_'' @ k @ x"
  then have "''.mp4'' @ TEMP_SUFFIX = ''_'' @ k @ x" by (simp only: same_append_eq)
  then have "hd (''.mp4'' @ TEMP_SUFFIX) = hd (''_'' @ k @ x)" by (rule arg_cong)
  then show False by simp
qed

lemma mirrored_name:
  assumes "strict_prefix downloads_root src" and "mirrored src downloads_root output_root = Inr m"
  shows "name m = name src \<and> m \<noteq> [] \<and> src \<noteq> []"
proof -
  from assms(1) obtain rel where rel: "src = downloads_root @ rel" "rel \<noteq> []"
    by (auto simp add: strict_prefix_def prefix_def)
  with assms(2) have "m = output_root @ rel"
    by (auto simp add: mirrored_def relative_to_def)
  with rel show ?thesis by (simp add: name_def)
qed

lemma dest_tmp_differs:
  assumes "strict_prefix downloads_root src" and "mirrored src downloads_root output_root = Inr m"
    and "with_suffix m (''.mp4'' @ TEMP_SUFFIX) = Inr dest_tmp"
  shows "dest_tmp \<noteq> src" and "name dest_tmp = stem_of (name src) @ ''.mp4'' @ TEMP_SUFFIX"
    and "parent dest_tmp = parent m" and "dest_tmp \<noteq> []"
proof -
  from mirrored_name [OF assms(1,2)] have n: "name m = name src" "m \<noteq> []" "src \<noteq> []" by simp_all
  from assms(3) n have d: "dest_tmp = butlast m @ [stem_of (name src) @ ''.mp4'' @ TEMP_SUFFIX]"
    by (auto simp add: with_suffix_def stem_def split: if_splits)
  then show "name dest_tmp = stem_of (name src) @ ''.mp4'' @ TEMP_SUFFIX" by simp
  from d show "parent dest_tmp = parent m" by (simp add: parent_def)
  from d show "dest_tmp \<noteq> []" by simp
  show "dest_tmp \<noteq> src"
  proof
    assume "dest_tmp = src"
    then have "name dest_tmp = name src" by simp
    with d have "stem_of (name src) @ ''.mp4'' @ TEMP_SUFFIX = name src" by simp
    with temp_name_differs [of "name src"] show False by simp
  qed
qed

lemma db_mark: "db (mark w p st nt) p = Some r \<Longrightarrow> status r = st \<and> note_txt r = nt"
  by (auto simp add: mark_def split: option.splits)

lemma note_mark: "\<exists>r. db (mark w p st nt) p = Some r \<and> note_txt r = nt"
  by (simp add: mark_def split: option.splits)

lemma fs_try_unlink:
  "node_at (fs (try_unlink p w)) q = (if q = p \<and> is_file (fs w) p then None else node_at (fs w) q)"
proof (cases "node_at (fs w) p")
  case None
  then show ?thesis by (simp add: try_unlink_def unlink_def is_file_def)
next
  case (Some n)
  then have "p \<noteq> [] \<or> n = Dir" by (auto simp add: node_at_def)
  with Some show ?thesis
    by (cases n) (auto simp add: try_unlink_def unlink_def is_file_def node_at_delete)
qed

lemma try_unlink_rest [simp]:
  "db (try_unlink p w) = db w" "hb_runs (try_unlink p w) = hb_runs w"
  "logged (try_unlink p w) = logged w" "clock (try_unlink p w) = clock w"
  "stdin (try_unlink p w) = stdin w"
  by (simp_all add: try_unlink_def split: sum.splits)

lemma status_of_try_unlink [simp]: "status_of (try_unlink p w) q = status_of w q"
  by (simp add: status_of_def)

section \<open>A failed transcode\<close>

text \<open>
  Claim C7. When the transcode step fails, that is the transcoder exits with a code other
  than zero, or exits with zero and nothing is at the temporary path, the engine returns
  with the source's status \<open>error\<close> and the note \<^verbatim>\<open>handbrake_exit_<code>\<close> or \<^verbatim>\<open>no_output\<close>;
  no file is left at the temporary path; and the engine itself changes no other path of
  the file system the transcoder left, so the source is as the transcoder left it. Here
  \<open>w3\<close> is the world right after the transcoder returned.
\<close>

theorem failed_transcode:
  assumes "strict_prefix downloads_root src"
    and "mirrored src downloads_root output_root = Inr m"
    and "with_suffix m (''.mp4'' @ TEMP_SUFFIX) = Inr dest_tmp"
    and "ensure_dir (parent dest_tmp) (fs w) = Inr f2"
    and "transcode_with_handbrake e ((mark w src Queued (Some ''ready''))\<lparr>fs := f2\<rparr>) src dest_tmp
           = (rc, w3)"
    and "rc \<noteq> 0 \<or> \<not> exists (fs w3) dest_tmp"
  shows "\<exists>w'. transcode_step e w src downloads_root output_root = Inr w'
     \<and> status_of w' src = Some Error
     \<and> map_option note_txt (db w' src)
          = Some (Some (if rc \<noteq> 0 then ''handbrake_exit_'' @ str_of_int rc else ''no_output''))
     \<and> \<not> is_file (fs w') dest_tmp
     \<and> (\<forall>q. q \<noteq> dest_tmp \<longrightarrow> node_at (fs w') q = node_at (fs w3) q)
     \<and> node_at (fs w') src = node_at (fs w3) src
     \<and> hb_runs w' = hb_runs w3"
proof -
  from dest_tmp_differs [OF assms(1,2,3)] have ne: "dest_tmp \<noteq> src" by simp
  show ?thesis
  proof (cases "rc \<noteq> 0")
    case True
    let ?w4 = "log (''HandBrake failed for '' @ name src)
                 (mark w3 src Error (Some (''handbrake_exit_'' @ str_of_int rc)))"
    let ?w' = "if exists (fs ?w4) dest_tmp then try_unlink dest_tmp ?w4 else ?w4"
    from True assms have r: "transcode_step e w src downloads_root output_root = Inr ?w'"
      by (simp add: transcode_step_def Let_def)
    have "status_of ?w' src = Some Error" by simp
    moreover have "map_option note_txt (db ?w' src) = Some (Some (''handbrake_exit_'' @ str_of_int rc))"
      using note_mark [of w3 src Error "Some (''handbrake_exit_'' @ str_of_int rc)"] by auto
    moreover have "\<not> is_file (fs ?w') dest_tmp"
      by (auto simp add: is_file_def fs_try_unlink exists_def split: option.splits node.splits)
    moreover have "\<forall>q. q \<noteq> dest_tmp \<longrightarrow> node_at (fs ?w') q = node_at (fs w3) q"
      by (simp add: fs_try_unlink)
    moreover have "hb_runs ?w' = hb_runs w3" by simp
    ultimately show ?thesis using r True ne by (intro exI [of _ ?w']) simp
  next
    case False
    with assms(6) have nx: "\<not> exists (fs w3) dest_tmp" by simp
    let ?w' = "log (''No transcode output for '' @ name src) (mark w3 src Error (Some ''no_output''))"
    from False nx assms have r: "transcode_step e w src downloads_root output_root = Inr ?w'"
      by (simp add: transcode_step_def Let_def)
    from nx have "\<not> is_file (fs ?w') dest_tmp"
      by (simp add: is_file_def exists_def)
    moreover have "map_option note_txt (db ?w' src) = Some (Some ''no_output'')"
      using note_mark [of w3 src Error "Some ''no_output''"] by auto
    ultimately show ?thesis using r False by (intro exI [of _ ?w']) simp
  qed
qed

definition cinema :: filesys where
  "cinema = [([''in''], Dir), ([''out''], Dir), ([''in'', ''Movie.mkv''], File 500 1)]"

definition failing_env :: env where
  "failing_env = still_env\<lparr>handbrake := (\<lambda>F s d. (3, AList.update d (File 10 9) F))\<rparr>"

theorem failed_transcode_witness:
  "\<exists>w'. transcode_step failing_env (world0 cinema) [''in'', ''Movie.mkv''] [''in''] [''out''] = Inr w'
     \<and> status_of w' [''in'', ''Movie.mkv''] = Some Error
     \<and> map_option note_txt (db w' [''in'', ''Movie.mkv'']) = Some (Some ''handbrake_exit_3'')
     \<and> \<not> is_file (fs w') [''out'', ''Movie.mp4.transcoding'']
     \<and> node_at (fs w') [''in'', ''Movie.mkv''] = Some (File 500 1)"
proof -
  let ?src = "[''in'', ''Movie.mkv'']"
  let ?tmp = "[''out'', ''Movie.mp4.transcoding'']"
  let ?t = "transcode_with_handbrake failing_env
              ((mark (world0 cinema) ?src Queued (Some ''ready''))\<lparr>fs := cinema\<rparr>) ?src ?tmp"
  have a: "strict_prefix [''in''] ?src" by (simp add: strict_prefix_def)
  have b: "mirrored ?src [''in''] [''out''] = Inr [''out'', ''Movie.mkv'']"
    by (simp add: mirrored_def relative_to_def)
  have c: "with_suffix [''out'', ''Movie.mkv''] (''.mp4'' @ TEMP_SUFFIX) = Inr ?tmp"
    by (simp add: with_suffix_def name_def stem_def stem_of_def suffix_of_def after_last_dot_def
          TEMP_SUFFIX_def)
  have d: "ensure_dir (parent ?tmp) (fs (world0 cinema)) = Inr cinema"
    by (simp add: parent_def world0_def cinema_def ensure_dir.simps node_at_def)
  have t: "?t = (3, snd ?t)"
    by (simp add: transcode_with_handbrake_def failing_env_def still_env_def Let_def)
  have f: "(3::int) \<noteq> 0 \<or> \<not> exists (fs (snd ?t)) ?tmp" by simp
  have n: "node_at (fs (snd ?t)) ?src = Some (File 500 1)"
    by (simp add: transcode_with_handbrake_def failing_env_def still_env_def Let_def log_def
          mark_def world0_def cinema_def node_at_def update_conv')
  have i: "str_of_int 3 = ''3''"
    by (simp add: str_of_int_def str_of_nat.simps digit_char_def)
  from failed_transcode [OF a b c d t f] n i show ?thesis by auto
qed

lemma move_safe_dest_form:
  assumes "move_safe e w src dest_dir = Inr (dest, w')" and "name src \<noteq> []"
  shows "dest = dest_dir @ [name src]
         \<or> (\<exists>i. dest = dest_dir @ [stem src @ ''_'' @ str_of_nat i @ suffix src])"
proof -
  have j: "join dest_dir (name src) = dest_dir @ [name src]" using assms(2) by (simp add: join_def)
  from assms(1) obtain f1 d where f1: "ensure_dir dest_dir (fs w) = Inr f1"
    and d: "unique_dest f1 (dest_dir @ [name src]) = Inr d"
    and r: "(let w1 = w\<lparr>fs := f1\<rparr> in
       if dry_run (ARGS e)
       then Inr (d, log (''[DRY-RUN] Would move '' @ path_str src @ '' -> '' @ path_str d) w1)
       else (case rename (xdev e) src d f1 of
               Inr f2 \<Rightarrow> Inr (d, w1\<lparr>fs := f2\<rparr>)
             | Inl _ \<Rightarrow>
                 bindE (copy2 src d f1) (\<lambda>f2.
                   (case unlink src f2 of
                      Inr f3 \<Rightarrow> Inr (d, w1\<lparr>fs := f3\<rparr>)
                    | Inl _ \<Rightarrow> Inr (d, w1\<lparr>fs := f2\<rparr>))))) = Inr (dest, w')"
    unfolding move_safe_def j bindE_eq_Inr by blast
  have "case (let w1 = w\<lparr>fs := f1\<rparr> in
       if dry_run (ARGS e)
       then Inr (d, log (''[DRY-RUN] Would move '' @ path_str src @ '' -> '' @ path_str d) w1)
       else (case rename (xdev e) src d f1 of
               Inr f2 \<Rightarrow> Inr (d, w1\<lparr>fs := f2\<rparr>)
             | Inl _ \<Rightarrow>
                 bindE (copy2 src d f1) (\<lambda>f2.
                   (case unlink src f2 of
                      Inr f3 \<Rightarrow> Inr (d, w1\<lparr>fs := f3\<rparr>)
                    | Inl _ \<Rightarrow> Inr (d, w1\<lparr>fs := f2\<rparr>))))) of
          Inl _ \<Rightarrow> True | Inr res \<Rightarrow> fst res = d"
    by (simp add: Let_def bindE_def split: sum.splits)
  with r have "d = dest" by simp
  with d unique_dest_props [of "dest_dir @ [name src]" f1] assms(2) show ?thesis
    by (auto simp add: candidate_def stem_def suffix_def split: if_splits)
qed

section \<open>The size comparison\<close>

text \<open>
  Claim C2. A file reaches the size comparison when both sizes could be read: the source
  and the transcoded artifact are files. Outside dry-run, with the source inside the
  downloads root, the artifact at the temporary path the engine computes, the mirrored
  directory in place and the artifact's rename not crossing devices: if the original is
  not larger than the artifact, the artifact is deleted, the original's node arrives at a
  free name in the mirrored directory, and the status is \<open>kept_original_moved\<close>; if the
  original is strictly larger, the artifact's node arrives at the final destination (the
  mirrored path with suffix \<^verbatim>\<open>.mp4\<close> when that is free, a free name beside it otherwise),
  the source is deleted, and the status is \<open>done_moved\<close>. Either way neither the source
  nor the temporary path exists afterwards, and no transcoder run is added.
\<close>

theorem size_comparison:
  assumes nd: "\<not> dry_run (ARGS e)"
    and src: "node_at (fs w) src = Some (File orig c)"
    and tmp: "node_at (fs w) dest_tmp = Some (File new c')"
    and inside: "strict_prefix downloads_root src"
    and m: "mirrored src downloads_root output_root = Inr m"
    and dt: "with_suffix m (''.mp4'' @ TEMP_SUFFIX) = Inr dest_tmp"
    and pd: "is_dir (fs w) (parent m)"
    and xd: "\<And>d. \<not> xdev e dest_tmp d"
  shows "\<exists>w' dest. size_comparison_step e w src downloads_root output_root dest_tmp = Inr w'
     \<and> parent dest = parent m \<and> \<not> exists (fs w) dest
     \<and> \<not> exists (fs w') src \<and> \<not> exists (fs w') dest_tmp
     \<and> (if orig \<le> new
         then status_of w' src = Some Kept_original_moved
            \<and> node_at (fs w') dest = Some (File orig c)
         else status_of w' src = Some Done_moved
            \<and> node_at (fs w') dest = Some (File new c')
            \<and> (\<exists>d0. with_suffix m ''.mp4'' = Inr d0 \<and> (\<not> exists (fs w) d0 \<longrightarrow> dest = d0)))
     \<and> hb_runs w' = hb_runs w"
proof -
  from dest_tmp_differs [OF inside m dt] have
    ne: "dest_tmp \<noteq> src" and nt: "name dest_tmp = stem_of (name src) @ ''.mp4'' @ TEMP_SUFFIX"
    and pt: "parent dest_tmp = parent m" and tne: "dest_tmp \<noteq> []" by simp_all
  from mirrored_name [OF inside m] have nm: "name m = name src" and mne: "m \<noteq> []" by simp_all
  from dt have "name m \<noteq> []" by (auto simp add: with_suffix_def split: if_splits)
  with nm have ns: "name src \<noteq> []" by simp
  have st: "stat_size (fs w) src = Inr orig" "stat_size (fs w) dest_tmp = Inr new"
    using src tmp by (simp_all add: stat_size_def)
  from tmp have tf: "is_file (fs w) dest_tmp" by (simp add: is_file_def)
  from pd tmp have pne: "parent m \<noteq> dest_tmp" by (auto simp add: is_dir_def)
  show ?thesis
  proof (cases "orig \<le> new")
    case True
    let ?w1 = "try_unlink dest_tmp w"
    have s1: "node_at (fs ?w1) src = Some (File orig c)" using src ne by (simp add: fs_try_unlink)
    have "is_dir (fs ?w1) (parent m)" using pd pne by (simp add: is_dir_def fs_try_unlink)
    then have ed: "ensure_dir (parent m) (fs ?w1) = Inr (fs ?w1)" by (rule ensure_dir_existing)
    from move_safe_file_total [OF s1 ns ed, of e] nd obtain dest w2 where
      ms: "move_safe e ?w1 src (parent m) = Inr (dest, w2)"
      and free: "\<not> exists (fs ?w1) dest" and par: "parent dest = parent m"
      and rest: "db w2 = db ?w1" "hb_runs w2 = hb_runs ?w1"
      and eff: "node_at (fs w2) dest = Some (File orig c)" "node_at (fs w2) src = None"
        "\<forall>q. q \<noteq> src \<and> q \<noteq> dest \<longrightarrow> node_at (fs w2) q = node_at (fs ?w1) q"
      by auto
    have dne: "dest \<noteq> dest_tmp"
    proof
      assume "dest = dest_tmp"
      with nt have n: "name dest = stem_of (name src) @ ''.mp4'' @ TEMP_SUFFIX" by simp
      from move_safe_dest_form [OF ms ns] show False
      proof
        assume "dest = parent m @ [name src]"
        with n temp_name_differs [of "name src"] show False by simp
      next
        assume "\<exists>i. dest = parent m @ [stem src @ ''_'' @ str_of_nat i @ suffix src]"
        then obtain i where "dest = parent m @ [stem src @ ''_'' @ str_of_nat i @ suffix src]" ..
        with n temp_name_not_candidate [of "name src" "str_of_nat i" "suffix src"]
        show False by (simp add: stem_def)
      qed
    qed
    from free dne have free0: "\<not> exists (fs w) dest" by (simp add: exists_def fs_try_unlink)
    from eff(3) ne dne tf have gone: "node_at (fs w2) dest_tmp = None"
      by (simp add: fs_try_unlink)
    let ?w' = "log (''Kept ORIGINAL (smaller/equal) -> moved to '' @ path_str dest)
                 (mark w2 src Kept_original_moved (Some (''moved original to '' @ path_str dest)))"
    have r: "size_comparison_step e w src downloads_root output_root dest_tmp = Inr ?w'"
      using True st nd m ms by (simp add: size_comparison_step_def)
    from r par free0 eff gone rest True show ?thesis
      by (intro exI [of _ ?w'] exI [of _ dest]) (simp add: exists_def)
  next
    case False
    from dt mne obtain d0 where d0: "with_suffix m ''.mp4'' = Inr d0"
      and d0f: "d0 = butlast m @ [stem m @ ''.mp4'']"
      by (auto simp add: with_suffix_def split: if_splits)
    then have nd0: "name d0 \<noteq> []" by simp
    let ?df = "if exists (fs w) d0 then unique_dest (fs w) d0 else Inr d0"
    from unique_dest_props [OF nd0, of "fs w"] d0f obtain dest where
      df: "?df = Inr dest" and free: "\<not> exists (fs w) dest"
      and par: "butlast dest = butlast m" and dn: "dest \<noteq> []"
      and same: "\<not> exists (fs w) d0 \<longrightarrow> dest = d0"
      by (cases "exists (fs w) d0") auto
    from free src tmp have d1: "dest \<noteq> src" "dest \<noteq> dest_tmp" by (auto simp add: exists_def)
    from pd par have pdd: "is_dir (fs w) (parent dest)" by (simp add: parent_def)
    then have pde: "exists (fs w) (parent dest)" by (simp add: is_dir_def exists_def)
    from free have ndir: "\<not> is_dir (fs w) dest" by (simp add: is_dir_def exists_def)
    let ?f1 = "AList.update dest (File new c') (AList.delete dest_tmp (fs w))"
    have rn: "rename (xdev e) dest_tmp dest (fs w) = Inr ?f1"
      using tmp tne dn xd pdd pde ndir d1 by (simp add: rename_def)
    from src have sne: "src \<noteq> []" by (auto simp add: node_at_def)
    have sf: "node_at ?f1 src = Some (File orig c)"
      using src d1 ne dn by (simp add: node_at_update node_at_delete)
    then have isf: "is_file ?f1 src" by (simp add: is_file_def)
    let ?w1 = "try_unlink src (w\<lparr>fs := ?f1\<rparr>)"
    let ?w' = "log (''Transcode COMPLETE -> '' @ path_str dest)
                 (mark ?w1 src Done_moved (Some (''moved transcode to '' @ path_str dest)))"
    have r: "size_comparison_step e w src downloads_root output_root dest_tmp = Inr ?w'"
      using False st nd m d0 df rn by (simp add: size_comparison_step_def)
    have a: "node_at (fs ?w') src = None" using isf by (simp add: fs_try_unlink)
    have b: "node_at (fs ?w') dest_tmp = None"
      using ne d1 dn tne by (simp add: fs_try_unlink node_at_update node_at_delete)
    have c: "node_at (fs ?w') dest = Some (File new c')"
      using d1 dn by (simp add: fs_try_unlink node_at_update)
    from r par free a b c d0 same False show ?thesis
      by (intro exI [of _ ?w'] exI [of _ dest]) (simp add: exists_def parent_def)
  qed
qed

definition transcoded :: "nat \<Rightarrow> filesys" where
  "transcoded n = cinema @ [([''out'', ''Movie.mp4.transcoding''], File n 7)]"

theorem size_comparison_witness:
  "(\<exists>w'. size_comparison_step still_env (world0 (transcoded 300)) [''in'', ''Movie.mkv''] [''in''] [''out'']
            [''out'', ''Movie.mp4.transcoding''] = Inr w'
      \<and> status_of w' [''in'', ''Movie.mkv''] = Some Done_moved
      \<and> node_at (fs w') [''out'', ''Movie.mp4''] = Some (File 300 7)
      \<and> \<not> exists (fs w') [''in'', ''Movie.mkv'']
      \<and> \<not> exists (fs w') [''out'', ''Movie.mp4.transcoding''])
   \<and> (\<exists>w' dest. size_comparison_step still_env (world0 (transcoded 600)) [''in'', ''Movie.mkv''] [''in''] [''out'']
            [''out'', ''Movie.mp4.transcoding''] = Inr w'
      \<and> status_of w' [''in'', ''Movie.mkv''] = Some Kept_original_moved
      \<and> parent dest = [''out''] \<and> node_at (fs w') dest = Some (File 500 1)
      \<and> \<not> exists (fs w') [''in'', ''Movie.mkv'']
      \<and> \<not> exists (fs w') [''out'', ''Movie.mp4.transcoding''])"
proof -
  let ?src = "[''in'', ''Movie.mkv'']"
  let ?tmp = "[''out'', ''Movie.mp4.transcoding'']"
  have nd: "\<not> dry_run (ARGS still_env)" by (simp add: still_env_def)
  have src: "node_at (fs (world0 (transcoded n))) ?src = Some (File 500 1)" for n
    by (simp add: world0_def transcoded_def cinema_def node_at_def)
  have tmp: "node_at (fs (world0 (transcoded n))) ?tmp = Some (File n 7)" for n
    by (simp add: world0_def transcoded_def cinema_def node_at_def)
  have a: "strict_prefix [''in''] ?src" by (simp add: strict_prefix_def)
  have b: "mirrored ?src [''in''] [''out''] = Inr [''out'', ''Movie.mkv'']"
    by (simp add: mirrored_def relative_to_def)
  have c: "with_suffix [''out'', ''Movie.mkv''] (''.mp4'' @ TEMP_SUFFIX) = Inr ?tmp"
    by (simp add: with_suffix_def name_def stem_def stem_of_def suffix_of_def after_last_dot_def
          TEMP_SUFFIX_def)
  have d: "is_dir (fs (world0 (transcoded n))) (parent [''out'', ''Movie.mkv''])" for n
    by (simp add: parent_def world0_def transcoded_def cinema_def is_dir_def node_at_def)
  have x: "\<And>d. \<not> xdev still_env ?tmp d" by (simp add: still_env_def)
  have f: "with_suffix [''out'', ''Movie.mkv''] ''.mp4'' = Inr [''out'', ''Movie.mp4'']"
    by (simp add: with_suffix_def name_def stem_def stem_of_def suffix_of_def after_last_dot_def)
  have g: "\<not> exists (fs (world0 (transcoded 300))) [''out'', ''Movie.mp4'']"
    by (simp add: exists_def world0_def transcoded_def cinema_def node_at_def)
  have p: "parent [''out'', ''Movie.mkv''] = [''out'']" by (simp add: parent_def)
  from size_comparison [OF nd src tmp a b c d x, of 300] f g
  have one: "\<exists>w'. size_comparison_step still_env (world0 (transcoded 300)) ?src [''in''] [''out''] ?tmp = Inr w'
      \<and> status_of w' ?src = Some Done_moved
      \<and> node_at (fs w') [''out'', ''Movie.mp4''] = Some (File 300 7)
      \<and> \<not> exists (fs w') ?src \<and> \<not> exists (fs w') ?tmp"
    by auto
  from size_comparison [OF nd src tmp a b c d x, of 600] p
  have two: "\<exists>w' dest. size_comparison_step still_env (world0 (transcoded 600)) ?src [''in''] [''out''] ?tmp = Inr w'
      \<and> status_of w' ?src = Some Kept_original_moved
      \<and> parent dest = [''out''] \<and> node_at (fs w') dest = Some (File 500 1)
      \<and> \<not> exists (fs w') ?src \<and> \<not> exists (fs w') ?tmp"
    by auto
  from one two show ?thesis by blast
qed

section \<open>The stability gate\<close>

lemma ask_confirm_frame:
  "ask_confirm e w prompt = Inr (b, w1) \<Longrightarrow>
   db w1 = db w \<and> fs w1 = fs w \<and> hb_runs w1 = hb_runs w \<and> clock w1 = clock w"
  by (auto simp add: ask_confirm_def log_def bindE_eq_Inr split: if_splits)

lemma file_is_stable_frame:
  "file_is_stable e w p d = (b, w') \<Longrightarrow>
   db w' = db w \<and> hb_runs w' = hb_runs w \<and> logged w' = logged w \<and> stdin w' = stdin w
   \<and> (fs w' = fs w \<and> clock w' = clock w
        \<or> fs w' = background e (clock w) d (fs w) \<and> clock w' = clock w + d)"
  by (auto simp add: file_is_stable_def sleep_def Let_def split: sum.splits)



section \<open>The sample check of the scan loop\<close>

lemma update_groups_nonempty:
  "\<forall>g \<in> set al. snd g \<noteq> [] \<Longrightarrow> v \<noteq> [] \<Longrightarrow> \<forall>g \<in> set (AList.update k v al). snd g \<noteq> []"
  by (induction al) auto

lemma collect_seasons_nonempty:
  "collect_seasons F ds out = Inr mapping \<Longrightarrow> \<forall>g \<in> set out. snd g \<noteq> [] \<Longrightarrow>
   \<forall>g \<in> set mapping. snd g \<noteq> []"
proof (induction ds arbitrary: out)
  case Nil
  then show ?case by simp
next
  case (Cons d ds)
  from Cons.prems(1) obtain vids where
    r: "collect_seasons F ds (if vids \<noteq> [] then AList.update (name d) vids out else out)
          = Inr mapping"
    by (auto simp add: bindE_eq_Inr Let_def simp del: concat_eq_Nil_conv)
  have "\<forall>g\<in>set (if vids \<noteq> [] then AList.update (name d) vids out else out). snd g \<noteq> []"
    using Cons.prems(2) update_groups_nonempty [of out vids "name d"] by (cases "vids = []") simp_all
  with r show ?case by (rule Cons.IH)
qed

lemma collect_groups_nonempty:
  assumes "collect_videos_two_depth F d = Inr mapping"
  shows "\<forall>g \<in> set mapping. snd g \<noteq> []"
proof -
  from assms obtain entries where
    r: "collect_seasons F (filter (is_dir F) entries)
          (if filter (\<lambda>p. is_file F p \<and> is_video p) entries \<noteq> []
           then [([], filter (\<lambda>p. is_file F p \<and> is_video p) entries)] else []) = Inr mapping"
    by (auto simp add: collect_videos_two_depth_def bindE_eq_Inr Let_def)
  show ?thesis by (rule collect_seasons_nonempty [OF r]) simp
qed

lemma first_sample_nonempty:
  "mapping \<noteq> [] \<Longrightarrow> \<forall>g \<in> set mapping. snd g \<noteq> [] \<Longrightarrow>
   first_sample mapping = Some (hd (snd (hd mapping)))"
  by (cases mapping) (auto split: list.splits)

text \<open>
  Claim C10. For a show directory that the loop takes up (not hidden, not in posters-only
  mode, no temporary name, a directory, with a non-empty grouping), the sample is the first
  video of the first group of the grouping, and every group of a grouping is non-empty. If
  that one sample is unstable, the entry is left with the status table as it was, so no
  status is written for any file of the show; no transcoder runs; the file system is the
  one before or the one the other processes left during the sleep; and at most one sleep
  of the stability check has passed, so no other file was sampled.
\<close>

theorem unstable_sample_skips_show:
  assumes "\<not> prefix ''.'' (name entry)" and "\<not> posters_only (ARGS e)"
    and "\<not> is_temporary_name (name entry)" and "is_dir (fs w) entry"
    and "collect_videos_two_depth (fs w) entry = Inr mapping" and "mapping \<noteq> []"
    and "file_is_stable e w (hd (snd (hd mapping))) SIZE_STABLE_SECONDS = (False, w1)"
  shows "\<exists>w'. scan_entry e w downloads output tmdb_key entry any_found = Inr (True, w')
     \<and> first_sample mapping = Some (hd (snd (hd mapping))) \<and> snd (hd mapping) \<noteq> []
     \<and> db w' = db w \<and> hb_runs w' = hb_runs w
     \<and> (fs w' = fs w \<or> fs w' = background e (clock w) SIZE_STABLE_SECONDS (fs w))
     \<and> clock w' \<le> clock w + SIZE_STABLE_SECONDS"
proof -
  from collect_groups_nonempty [OF assms(5)] have ne: "\<forall>g \<in> set mapping. snd g \<noteq> []" .
  from first_sample_nonempty [OF assms(6) ne]
  have fsm: "first_sample mapping = Some (hd (snd (hd mapping)))" .
  from ne assms(6) have hne: "snd (hd mapping) \<noteq> []" by (cases mapping) auto
  let ?w' = "log (''Topdir '' @ name entry @ '' has unstable files; skipping this pass.'') w1"
  have r: "scan_entry e w downloads output tmdb_key entry any_found = Inr (True, ?w')"
    using assms fsm by (simp add: scan_entry_def)
  from file_is_stable_frame [OF assms(7)] have
    "db ?w' = db w" "hb_runs ?w' = hb_runs w"
    "fs ?w' = fs w \<or> fs ?w' = background e (clock w) SIZE_STABLE_SECONDS (fs w)"
    "clock ?w' \<le> clock w + SIZE_STABLE_SECONDS"
    by (auto simp add: log_def)
  with r fsm hne show ?thesis by (intro exI [of _ ?w']) simp
qed

definition series :: filesys where
  "series = [([''in''], Dir), ([''out''], Dir), ([''in'', ''Show''], Dir),
             ([''in'', ''Show'', ''S1''], Dir),
             ([''in'', ''Show'', ''S1'', ''e1.avi''], File 500 1),
             ([''in'', ''Show'', ''S1'', ''e1.srt''], File 5 2),
             ([''in'', ''Show'', ''S1'', ''e2.mp4''], File 100 3)]"

definition one_growing_env :: env where
  "one_growing_env =
     still_env\<lparr>background :=
       (\<lambda>t d F. AList.update [''in'', ''Show'', ''S1'', ''e1.avi''] (File (500 + d) 1) F)\<rparr>"

lemma series_grouping:
  "collect_videos_two_depth series [''in'', ''Show'']
     = Inr [(''S1'', [[''in'', ''Show'', ''S1'', ''e1.avi''], [''in'', ''Show'', ''S1'', ''e2.mp4'']])]"
  by code_simp

theorem unstable_sample_witness:
  "fst (file_is_stable one_growing_env (world0 series) [''in'', ''Show'', ''S1'', ''e2.mp4'']
          SIZE_STABLE_SECONDS)
   \<and> (\<exists>w'. scan_entry one_growing_env (world0 series) [''in''] [''out''] None [''in'', ''Show''] False
              = Inr (True, w')
          \<and> db w' = Map.empty \<and> hb_runs w' = [])"
proof -
  let ?entry = "[''in'', ''Show'']"
  let ?mapping = "[(''S1'', [[''in'', ''Show'', ''S1'', ''e1.avi''], [''in'', ''Show'', ''S1'', ''e2.mp4'']])]"
  let ?t = "file_is_stable one_growing_env (world0 series) (hd (snd (hd ?mapping))) SIZE_STABLE_SECONDS"
  have a: "\<not> prefix ''.'' (name ?entry)" by (simp add: name_def)
  have b: "\<not> posters_only (ARGS one_growing_env)"
    by (simp add: one_growing_env_def still_env_def)
  have c: "\<not> is_temporary_name (name ?entry)"
    by (simp add: is_temporary_name_def TEMP_PATTERNS_def name_def suffix_to_prefix)
  have d: "is_dir (fs (world0 series)) ?entry"
    by (simp add: is_dir_def world0_def series_def node_at_def)
  have e: "collect_videos_two_depth (fs (world0 series)) ?entry = Inr ?mapping"
    using series_grouping by (simp add: world0_def)
  have f: "?mapping \<noteq> []" by simp
  have g: "?t = (False, snd ?t)"
    by (simp add: file_is_stable_def one_growing_env_def still_env_def world0_def series_def
          sleep_def stat_size_def node_at_def SIZE_STABLE_SECONDS_def Let_def update_conv')
  have h: "fst (file_is_stable one_growing_env (world0 series) [''in'', ''Show'', ''S1'', ''e2.mp4'']
          SIZE_STABLE_SECONDS)"
    by (simp add: file_is_stable_def one_growing_env_def still_env_def world0_def series_def
          sleep_def stat_size_def node_at_def SIZE_STABLE_SECONDS_def Let_def update_conv')
  have i: "db (world0 series) = Map.empty" "hb_runs (world0 series) = []"
    by (simp_all add: world0_def)
  from unstable_sample_skips_show [OF a b c d e f g, of "[''in'']" "[''out'']" None False] h i
  show ?thesis by auto
qed

section \<open>The idempotency gate\<close>

lemma gate_returns_at_once:
  "status_of w src \<in> set (map Some gated) \<Longrightarrow>
   process_movie_file e w src downloads_root output_root = Inr w"
  by (simp add: process_movie_file_def)

lemma gated_statuses:
  "set gated = {Processing, Done_moved, Skipped_moved, Kept_original_moved, Copied_season}"
  by (auto simp add: gated_def)

definition confirm_env :: env where
  "confirm_env =
     still_env\<lparr>ARGS := \<lparr>dry_run = False, confirm = True, no_posters = True, posters_only = False\<rparr>\<rparr>"

definition declined :: world where
  "declined =
     \<lparr>fs = cinema,
      db = [[''in'', ''Movie.mkv''] \<mapsto>
              \<lparr>status = Skipped_by_user, added_at = 0, updated_at = 0, note_txt = Some ''user skipped''\<rparr>],
      clock = 20, stdin = [], logged = [], hb_runs = []\<rparr>"

lemma declined_reached:
  "(case process_movie_file confirm_env ((world0 cinema)\<lparr>stdin := [''n'']\<rparr>)
           [''in'', ''Movie.mkv''] [''in''] [''out''] of
      Inl _ \<Rightarrow> False
    | Inr w \<Rightarrow> fs w = cinema \<and> status_of w [''in'', ''Movie.mkv''] = Some Skipped_by_user)"
  by code_simp

lemma declined_processed:
  "(case process_movie_file still_env declined [''in'', ''Movie.mkv''] [''in''] [''out''] of
      Inl _ \<Rightarrow> False
    | Inr w \<Rightarrow> status_of w [''in'', ''Movie.mkv''] = Some Done_moved
        \<and> hb_runs w = [([''in'', ''Movie.mkv''], [''out'', ''Movie.mp4.transcoding''])]
        \<and> node_at (fs w) [''in'', ''Movie.mkv''] = None
        \<and> node_at (fs w) [''out'', ''Movie.mp4''] = Some (File 300 7))"
  by code_simp

text \<open>
  Claim C1. For a path whose status is \<open>done_moved\<close>, \<open>skipped_moved\<close>,
  \<open>kept_original_moved\<close>, \<open>copied_season\<close> or \<open>skipped_by_user\<close> the engine is to be a
  no-op, and \<open>error\<close> is not gated. The gate of the code returns the world as it is for the
  first four (and for \<open>processing\<close>), as \<open>gate_returns_at_once\<close> says, and \<open>error\<close> is not
  in its list. \<open>skipped_by_user\<close> is not in the list either. The world \<open>declined\<close> is
  what a pass in confirm mode leaves when the operator answers no (\<open>declined_reached\<close>,
  up to the clock); on it, a later pass without the confirm flag transcodes the file,
  deletes the source and overwrites the status.
\<close>

theorem skipped_by_user_is_processed_again:
  "status_of declined [''in'', ''Movie.mkv''] = Some Skipped_by_user
   \<and> (\<exists>w'. process_movie_file still_env declined [''in'', ''Movie.mkv''] [''in''] [''out''] = Inr w'
          \<and> status_of w' [''in'', ''Movie.mkv''] = Some Done_moved
          \<and> hb_runs w' = [([''in'', ''Movie.mkv''], [''out'', ''Movie.mp4.transcoding''])]
          \<and> node_at (fs w') [''in'', ''Movie.mkv''] = None
          \<and> node_at (fs w') [''out'', ''Movie.mp4''] = Some (File 300 7))"
proof
  show "status_of declined [''in'', ''Movie.mkv''] = Some Skipped_by_user"
    by (simp add: status_of_def declined_def)
  from declined_processed
  show "\<exists>w'. process_movie_file still_env declined [''in'', ''Movie.mkv''] [''in''] [''out''] = Inr w'
          \<and> status_of w' [''in'', ''Movie.mkv''] = Some Done_moved
          \<and> hb_runs w' = [([''in'', ''Movie.mkv''], [''out'', ''Movie.mp4.transcoding''])]
          \<and> node_at (fs w') [''in'', ''Movie.mkv''] = None
          \<and> node_at (fs w') [''out'', ''Movie.mp4''] = Some (File 300 7)"
    by (cases "process_movie_file still_env declined [''in'', ''Movie.mkv''] [''in''] [''out'']")
       simp_all
qed

section \<open>Dry-run\<close>

text \<open>The file system \<open>F'\<close> is \<open>F\<close> with, at most, directories added: every file of \<open>F\<close>
  is there unchanged and no file is new.\<close>

definition only_dirs_added :: "filesys \<Rightarrow> filesys \<Rightarrow> bool" where
  "only_dirs_added F F' =
     (\<forall>q. node_at F' q = node_at F q \<or> (node_at F q = None \<and> node_at F' q = Some Dir))"

lemma only_dirs_added_refl [simp]: "only_dirs_added F F"
  by (simp add: only_dirs_added_def)

lemma only_dirs_added_trans:
  "only_dirs_added F G \<Longrightarrow> only_dirs_added G H \<Longrightarrow> only_dirs_added F H"
  unfolding only_dirs_added_def
proof (intro allI)
  fix q
  assume a: "\<forall>q. node_at G q = node_at F q \<or> node_at F q = None \<and> node_at G q = Some Dir"
    and b: "\<forall>q. node_at H q = node_at G q \<or> node_at G q = None \<and> node_at H q = Some Dir"
  from a have "node_at G q = node_at F q \<or> node_at F q = None \<and> node_at G q = Some Dir" ..
  moreover from b have "node_at H q = node_at G q \<or> node_at G q = None \<and> node_at H q = Some Dir" ..
  ultimately show "node_at H q = node_at F q \<or> node_at F q = None \<and> node_at H q = Some Dir"
    by auto
qed

lemma ensure_dir_new_is_dir:
  "ensure_dir p F = Inr F' \<Longrightarrow> node_at F q = None \<Longrightarrow>
   node_at F' q = None \<or> node_at F' q = Some Dir"
proof (induction p F arbitrary: F' rule: ensure_dir.induct)
  case (1 p F)
  show ?case
  proof (cases "node_at F p")
    case (Some n)
    with "1.prems" have "F' = F"
      by (subst (asm) ensure_dir.simps) (cases n; simp)
    with "1.prems" show ?thesis by simp
  next
    case None
    then have p: "p \<noteq> []" by (auto simp add: node_at_def)
    show ?thesis
    proof (cases "node_at F (parent p)")
      case pn: None
      from "1.prems" None pn obtain F1 where
        r: "ensure_dir (parent p) F = Inr F1" and F': "F' = AList.update p Dir F1"
        by (subst (asm) ensure_dir.simps) (auto split: sum.splits)
      from "1.IH" [OF None pn r "1.prems"(2)] F' p show ?thesis
        by (auto simp add: node_at_update)
    next
      case (Some n)
      with "1.prems" None have "F' = AList.update p Dir F"
        by (subst (asm) ensure_dir.simps) (cases n; simp)
      with p "1.prems"(2) show ?thesis
        by (auto simp add: node_at_update)
    qed
  qed
qed

lemma ensure_dir_only_dirs: "ensure_dir p F = Inr F' \<Longrightarrow> only_dirs_added F F'"
  unfolding only_dirs_added_def
proof (intro allI)
  fix q
  assume a: "ensure_dir p F = Inr F'"
  show "node_at F' q = node_at F q \<or> node_at F q = None \<and> node_at F' q = Some Dir"
  proof (cases "node_at F q")
    case None
    with ensure_dir_new_is_dir [OF a None] show ?thesis by auto
  next
    case (Some n)
    with ensure_dir_node_at [OF a, of q] show ?thesis by simp
  qed
qed

lemma move_safe_dry:
  assumes "dry_run (ARGS e)" and "move_safe e w src dest_dir = Inr (dest, w')"
  shows "db w' = db w \<and> hb_runs w' = hb_runs w \<and> only_dirs_added (fs w) (fs w')
     \<and> logged w' = logged w @ [''[DRY-RUN] Would move '' @ path_str src @ '' -> '' @ path_str dest]"
proof -
  from assms obtain f1 where f1: "ensure_dir dest_dir (fs w) = Inr f1"
    and w': "w' = log (''[DRY-RUN] Would move '' @ path_str src @ '' -> '' @ path_str dest) (w\<lparr>fs := f1\<rparr>)"
    by (auto simp add: move_safe_def bindE_eq_Inr Let_def)
  from ensure_dir_only_dirs [OF f1] w' show ?thesis by (simp add: log_def)
qed

lemma copy_tree_safe_dry:
  assumes "dry_run (ARGS e)" and "copy_tree_safe e w src_dir dest_dir = Inr w'"
  shows "db w' = db w \<and> hb_runs w' = hb_runs w \<and> only_dirs_added (fs w) (fs w')
     \<and> logged w' = logged w @ [''[DRY-RUN] Would copy tree '' @ path_str src_dir @ '' -> '' @ path_str dest_dir]"
proof -
  from assms obtain f1 where f1: "ensure_dir dest_dir (fs w) = Inr f1"
    and w': "w' = log (''[DRY-RUN] Would copy tree '' @ path_str src_dir @ '' -> '' @ path_str dest_dir) (w\<lparr>fs := f1\<rparr>)"
    by (auto simp add: copy_tree_safe_def bindE_eq_Inr Let_def)
  from ensure_dir_only_dirs [OF f1] w' show ?thesis by (simp add: log_def)
qed

lemma size_comparison_step_dry:
  assumes "dry_run (ARGS e)"
    and "size_comparison_step e w src downloads_root output_root dest_tmp = Inr w'"
  shows "hb_runs w' = hb_runs w \<and> only_dirs_added (fs w) (fs w')"
proof (cases "stat_size (fs w) src")
  case (Inl a)
  with assms show ?thesis by (auto simp add: size_comparison_step_def)
next
  case o: (Inr orig)
  show ?thesis
  proof (cases "stat_size (fs w) dest_tmp")
    case (Inl a)
    with o assms show ?thesis by (auto simp add: size_comparison_step_def)
  next
    case n: (Inr new)
    show ?thesis
    proof (cases "orig \<le> new")
      case True
      with o n assms obtain m moved w2 where
        ms: "move_safe e w src (parent m) = Inr (moved, w2)"
        and w': "w' = log (''Kept ORIGINAL (smaller/equal) -> moved to '' @ path_str moved)
                     (mark w2 src Kept_original_moved (Some (''moved original to '' @ path_str moved)))"
        by (auto simp add: size_comparison_step_def bindE_eq_Inr)
      from move_safe_dry [OF assms(1) ms] w' show ?thesis by simp
    next
      case False
      with o n assms have "\<exists>d. w' = log (''Transcode COMPLETE -> '' @ path_str d)
                     (mark w src Done_moved (Some (''moved transcode to '' @ path_str d)))"
        by (auto simp add: size_comparison_step_def bindE_eq_Inr)
      then show ?thesis by auto
    qed
  qed
qed

lemma transcode_step_dry:
  assumes "dry_run (ARGS e)"
    and "transcode_step e w src downloads_root output_root = Inr w'"
  shows "hb_runs w' = hb_runs w \<and> only_dirs_added (fs w) (fs w')"
proof -
  from assms obtain m dest_tmp f2 where
    ed: "ensure_dir (parent dest_tmp) (fs w) = Inr f2"
    and r: "(let w3 = log (''[DRY-RUN] Would run: '' @ handbrake_cmd src dest_tmp)
                       ((mark w src Queued (Some ''ready''))\<lparr>fs := f2\<rparr>) in
             if \<not> exists (fs w3) dest_tmp
             then Inr (log (''No transcode output for '' @ name src) (mark w3 src Error (Some ''no_output'')))
             else size_comparison_step e w3 src downloads_root output_root dest_tmp) = Inr w'"
    by (auto simp add: transcode_step_def transcode_with_handbrake_def bindE_eq_Inr Let_def)
  let ?w3 = "log (''[DRY-RUN] Would run: '' @ handbrake_cmd src dest_tmp)
               ((mark w src Queued (Some ''ready''))\<lparr>fs := f2\<rparr>)"
  have w3: "hb_runs ?w3 = hb_runs w" "fs ?w3 = f2" by (simp_all add: log_def mark_def)
  from ensure_dir_only_dirs [OF ed] have od: "only_dirs_added (fs w) f2" .
  show ?thesis
  proof (cases "exists (fs ?w3) dest_tmp")
    case False
    with r have "w' = log (''No transcode output for '' @ name src) (mark ?w3 src Error (Some ''no_output''))"
      by (simp add: Let_def)
    with w3 od show ?thesis by simp
  next
    case True
    with r have "size_comparison_step e ?w3 src downloads_root output_root dest_tmp = Inr w'"
      by (simp add: Let_def)
    from size_comparison_step_dry [OF assms(1) this] w3 od show ?thesis
      by (auto intro: only_dirs_added_trans)
  qed
qed

lemma probe_step_dry:
  assumes "dry_run (ARGS e)"
    and "probe_step e w src downloads_root output_root = Inr w'"
  shows "hb_runs w' = hb_runs w \<and> only_dirs_added (fs w) (fs w')"
proof (cases "should_skip_by_probe (probe_video e w src)")
  case True
  with assms obtain m moved w1 where
    ms: "move_safe e w src (parent m) = Inr (moved, w1)"
    and w': "w' = log (''SKIPPED BY PROBE -> moved original to '' @ path_str moved)
                (mark w1 src Skipped_moved (Some (''moved to '' @ path_str moved)))"
    by (auto simp add: probe_step_def bindE_eq_Inr)
  from move_safe_dry [OF assms(1) ms] w' show ?thesis by simp
next
  case False
  with assms have "transcode_step e w src downloads_root output_root = Inr w'"
    by (simp add: probe_step_def)
  from transcode_step_dry [OF assms(1) this] show ?thesis .
qed

lemma process_movie_file_dry:
  assumes "dry_run (ARGS e)"
    and "process_movie_file e w src downloads_root output_root = Inr w'"
  shows "hb_runs w' = hb_runs w
     \<and> (only_dirs_added (fs w) (fs w')
        \<or> only_dirs_added (background e (clock w) SIZE_STABLE_SECONDS (fs w)) (fs w'))"
proof (cases "status_of w src \<in> set (map Some gated) \<or> is_temporary_name (name src)")
  case True
  then show ?thesis
  proof
    assume "status_of w src \<in> set (map Some gated)"
    with assms(2) have "w' = w" by (simp add: process_movie_file_def)
    then show ?thesis by simp
  next
    assume t: "is_temporary_name (name src)"
    show ?thesis
    proof (cases "status_of w src \<in> set (map Some gated)")
      case True
      with assms(2) have "w' = w" by (simp add: process_movie_file_def)
      then show ?thesis by simp
    next
      case False
      with t assms(2) have "w' = log (''Skipping temp file '' @ name src) w"
        by (simp add: process_movie_file_def)
      then show ?thesis by simp
    qed
  qed
next
  case False
  let ?a = "if confirm (ARGS e) then ask_confirm e w (''Process file: '' @ path_str src @ ''?'')
            else Inr (True, w)"
  from assms(1) have "\<exists>w1. ?a = Inr (True, w1) \<and> fs w1 = fs w \<and> hb_runs w1 = hb_runs w
      \<and> clock w1 = clock w"
    by (simp add: ask_confirm_def log_def)
  then obtain w1 where a: "?a = Inr (True, w1)" and w1: "fs w1 = fs w" "hb_runs w1 = hb_runs w"
    "clock w1 = clock w" by blast
  let ?w2 = "log (''Processing file: '' @ path_str src) w1"
  obtain stable w3 where st: "file_is_stable e ?w2 src SIZE_STABLE_SECONDS = (stable, w3)"
    by (cases "file_is_stable e ?w2 src SIZE_STABLE_SECONDS")
  from file_is_stable_frame [OF st] w1 have
    w3: "hb_runs w3 = hb_runs w"
      "fs w3 = fs w \<or> fs w3 = background e (clock w) SIZE_STABLE_SECONDS (fs w)"
    by (auto simp add: log_def)
  show ?thesis
  proof (cases stable)
    case False
    with \<open>\<not> (status_of w src \<in> set (map Some gated) \<or> is_temporary_name (name src))\<close> a st assms(2)
    have "w' = log (''File not stable yet: '' @ path_str src) w3"
      by (simp add: process_movie_file_def Let_def)
    with w3 show ?thesis by auto
  next
    case True
    with \<open>\<not> (status_of w src \<in> set (map Some gated) \<or> is_temporary_name (name src))\<close> a st assms(2)
    have "probe_step e w3 src downloads_root output_root = Inr w'"
      by (simp add: process_movie_file_def Let_def)
    from probe_step_dry [OF assms(1) this] w3 show ?thesis by auto
  qed
qed

definition dry_env :: env where
  "dry_env =
     still_env\<lparr>ARGS := \<lparr>dry_run = True, confirm = False, no_posters = True, posters_only = False\<rparr>\<rparr>"

definition dry_mp4_env :: env where
  "dry_mp4_env =
     mp4_env\<lparr>ARGS := \<lparr>dry_run = True, confirm = False, no_posters = True, posters_only = False\<rparr>\<rparr>"

lemma dry_pass_evaluated:
  "(case process_movie_file dry_env (world0 cinema) [''in'', ''Movie.mkv''] [''in''] [''out'', ''x''] of
      Inl _ \<Rightarrow> False
    | Inr w \<Rightarrow> status_of w [''in'', ''Movie.mkv''] = Some Error
        \<and> node_at (fs w) [''out'', ''x''] = Some Dir)"
  by code_simp

lemma dry_skip_evaluated:
  "(case process_movie_file dry_mp4_env (world0 cinema) [''in'', ''Movie.mkv''] [''in''] [''out'', ''x''] of
      Inl _ \<Rightarrow> False
    | Inr w \<Rightarrow> status_of w [''in'', ''Movie.mkv''] = Some Skipped_moved
        \<and> node_at (fs w) [''in'', ''Movie.mkv''] = Some (File 500 1)
        \<and> node_at (fs w) [''out'', ''x''] = Some Dir
        \<and> node_at (fs w) [''out'', ''x'', ''Movie.mkv''] = None)"
  by code_simp

text \<open>
  Claim C9. Under dry-run every mutating action is to be logged and not performed: no
  transcoder run, no file moved, copied or deleted, no state written, the status table
  included, and confirmations answer yes. The code guards the transcoder, the move, the
  tree copy, the poster and the final rename with the flag, but \<^verbatim>\<open>mark\<close> and \<^verbatim>\<open>ensure_dir\<close>
  do not read it. On a stable file that the probe finds acceptable, a dry-run pass leaves
  the file where it is, creates the mirrored directory, and records \<open>skipped_moved\<close>; a
  later real pass then returns at the gate, so the file is never moved.
\<close>

theorem dry_run_writes_status:
  "dry_run (ARGS dry_mp4_env)
   \<and> status_of (world0 cinema) [''in'', ''Movie.mkv''] = None
   \<and> node_at (fs (world0 cinema)) [''out'', ''x''] = None
   \<and> (\<exists>w'. process_movie_file dry_mp4_env (world0 cinema) [''in'', ''Movie.mkv''] [''in''] [''out'', ''x'']
              = Inr w'
          \<and> status_of w' [''in'', ''Movie.mkv''] = Some Skipped_moved
          \<and> node_at (fs w') [''in'', ''Movie.mkv''] = Some (File 500 1)
          \<and> node_at (fs w') [''out'', ''x''] = Some Dir
          \<and> node_at (fs w') [''out'', ''x'', ''Movie.mkv''] = None
          \<and> process_movie_file mp4_env w' [''in'', ''Movie.mkv''] [''in''] [''out'', ''x''] = Inr w')"
proof (intro conjI)
  show "dry_run (ARGS dry_mp4_env)" by (simp add: dry_mp4_env_def)
  show "status_of (world0 cinema) [''in'', ''Movie.mkv''] = None"
    by (simp add: status_of_def world0_def)
  show "node_at (fs (world0 cinema)) [''out'', ''x''] = None"
    by (simp add: world0_def cinema_def node_at_def)
  from dry_skip_evaluated
  show "\<exists>w'. process_movie_file dry_mp4_env (world0 cinema) [''in'', ''Movie.mkv''] [''in''] [''out'', ''x'']
              = Inr w'
          \<and> status_of w' [''in'', ''Movie.mkv''] = Some Skipped_moved
          \<and> node_at (fs w') [''in'', ''Movie.mkv''] = Some (File 500 1)
          \<and> node_at (fs w') [''out'', ''x''] = Some Dir
          \<and> node_at (fs w') [''out'', ''x'', ''Movie.mkv''] = None
          \<and> process_movie_file mp4_env w' [''in'', ''Movie.mkv''] [''in''] [''out'', ''x''] = Inr w'"
  proof (cases "process_movie_file dry_mp4_env (world0 cinema) [''in'', ''Movie.mkv''] [''in''] [''out'', ''x'']")
    case (Inl a)
    with dry_skip_evaluated show ?thesis by simp
  next
    case (Inr w')
    with dry_skip_evaluated have s: "status_of w' [''in'', ''Movie.mkv''] = Some Skipped_moved"
      and n: "node_at (fs w') [''in'', ''Movie.mkv''] = Some (File 500 1)"
        "node_at (fs w') [''out'', ''x''] = Some Dir"
        "node_at (fs w') [''out'', ''x'', ''Movie.mkv''] = None"
      by simp_all
    from s have "status_of w' [''in'', ''Movie.mkv''] \<in> set (map Some gated)"
      by (simp add: gated_def)
    then have "process_movie_file mp4_env w' [''in'', ''Movie.mkv''] [''in''] [''out'', ''x''] = Inr w'"
      by (rule gate_returns_at_once)
    with Inr s n show ?thesis by simp
  qed
qed

text \<open>
  What the flag does guard. With dry-run set: an operator confirmation answers yes at
  once and logs that; the transcoder is not invoked, the command is logged and the exit
  code is 0; \<^verbatim>\<open>move_safe\<close> and \<^verbatim>\<open>copy_tree_safe\<close> log the move or copy and leave every file
  as it is; and a whole call of the engine adds no transcoder run and creates, changes and
  removes no file, relative to the file system before the call or to the one the other
  processes left during the stability sleep.
\<close>

lemma dry_run_frame:
  assumes "dry_run (ARGS e)"
  shows "ask_confirm e w prompt
           = Inr (True, log (''[DRY-RUN] would ask: '' @ prompt @ '' -> auto-YES'') w)
     \<and> transcode_with_handbrake e w src dest_tmp
           = (0, log (''[DRY-RUN] Would run: '' @ handbrake_cmd src dest_tmp) w)
     \<and> (\<forall>dest w'. move_safe e w src dest_dir = Inr (dest, w') \<longrightarrow>
           db w' = db w \<and> hb_runs w' = hb_runs w \<and> only_dirs_added (fs w) (fs w')
           \<and> logged w' = logged w @ [''[DRY-RUN] Would move '' @ path_str src @ '' -> '' @ path_str dest])
     \<and> (\<forall>w'. copy_tree_safe e w src_dir dest_dir = Inr w' \<longrightarrow>
           db w' = db w \<and> hb_runs w' = hb_runs w \<and> only_dirs_added (fs w) (fs w')
           \<and> logged w' = logged w @ [''[DRY-RUN] Would copy tree '' @ path_str src_dir @ '' -> ''
                                        @ path_str dest_dir])
     \<and> (\<forall>w'. process_movie_file e w src downloads_root output_root = Inr w' \<longrightarrow>
           hb_runs w' = hb_runs w
           \<and> (only_dirs_added (fs w) (fs w')
              \<or> only_dirs_added (background e (clock w) SIZE_STABLE_SECONDS (fs w)) (fs w')))"
proof (intro conjI allI impI)
  show "ask_confirm e w prompt
           = Inr (True, log (''[DRY-RUN] would ask: '' @ prompt @ '' -> auto-YES'') w)"
    using assms by (simp add: ask_confirm_def)
  show "transcode_with_handbrake e w src dest_tmp
           = (0, log (''[DRY-RUN] Would run: '' @ handbrake_cmd src dest_tmp) w)"
    using assms by (simp add: transcode_with_handbrake_def)
next
  fix dest w' assume "move_safe e w src dest_dir = Inr (dest, w')"
  from move_safe_dry [OF assms this]
  show "db w' = db w" "hb_runs w' = hb_runs w" "only_dirs_added (fs w) (fs w')"
    "logged w' = logged w @ [''[DRY-RUN] Would move '' @ path_str src @ '' -> '' @ path_str dest]"
    by simp_all
next
  fix w' assume "copy_tree_safe e w src_dir dest_dir = Inr w'"
  from copy_tree_safe_dry [OF assms this]
  show "db w' = db w" "hb_runs w' = hb_runs w" "only_dirs_added (fs w) (fs w')"
    "logged w' = logged w @ [''[DRY-RUN] Would copy tree '' @ path_str src_dir @ '' -> ''
                                        @ path_str dest_dir]"
    by simp_all
next
  fix w' assume "process_movie_file e w src downloads_root output_root = Inr w'"
  from process_movie_file_dry [OF assms this]
  show "hb_runs w' = hb_runs w"
    "only_dirs_added (fs w) (fs w')
       \<or> only_dirs_added (background e (clock w) SIZE_STABLE_SECONDS (fs w)) (fs w')"
    by simp_all
qed

lemma dry_run_frame_instance:
  "dry_run (ARGS dry_env)
   \<and> ask_confirm dry_env (world0 cinema) ''Process file: /in/Movie.mkv?''
        = Inr (True, log ''[DRY-RUN] would ask: Process file: /in/Movie.mkv? -> auto-YES'' (world0 cinema))
   \<and> (\<exists>w'. process_movie_file dry_env (world0 cinema) [''in'', ''Movie.mkv''] [''in''] [''out'', ''x'']
              = Inr w'
          \<and> hb_runs w' = []
          \<and> node_at (fs w') [''in'', ''Movie.mkv''] = Some (File 500 1))"
proof -
  let ?src = "[''in'', ''Movie.mkv'']"
  have d: "dry_run (ARGS dry_env)" by (simp add: dry_env_def)
  note f = dry_run_frame [OF d, of "world0 cinema" "''Process file: /in/Movie.mkv?''" ?src "[]" "[]" "[]"
      "[''in'']" "[''out'', ''x'']"]
  from dry_pass_evaluated obtain w' where
    r: "process_movie_file dry_env (world0 cinema) ?src [''in''] [''out'', ''x''] = Inr w'"
    by (cases "process_movie_file dry_env (world0 cinema) ?src [''in''] [''out'', ''x'']") simp_all
  from f r have h: "hb_runs w' = hb_runs (world0 cinema)"
    and o: "only_dirs_added (fs (world0 cinema)) (fs w')
       \<or> only_dirs_added (background dry_env (clock (world0 cinema)) SIZE_STABLE_SECONDS
             (fs (world0 cinema))) (fs w')"
    by blast+
  have b: "background dry_env (clock (world0 cinema)) SIZE_STABLE_SECONDS (fs (world0 cinema))
             = fs (world0 cinema)"
    by (simp add: dry_env_def still_env_def)
  have n: "node_at (fs (world0 cinema)) ?src = Some (File 500 1)"
    by (simp add: world0_def cinema_def node_at_def)
  from o b have "only_dirs_added (fs (world0 cinema)) (fs w')" by auto
  then have "node_at (fs w') ?src = node_at (fs (world0 cinema)) ?src
       \<or> node_at (fs (world0 cinema)) ?src = None \<and> node_at (fs w') ?src = Some Dir"
    by (simp add: only_dirs_added_def)
  with n have n': "node_at (fs w') ?src = Some (File 500 1)" by simp
  from f have a: "ask_confirm dry_env (world0 cinema) ''Process file: /in/Movie.mkv?''
        = Inr (True, log (''[DRY-RUN] would ask: '' @ ''Process file: /in/Movie.mkv?'' @ '' -> auto-YES'')
                 (world0 cinema))" by blast
  from d a r h n' show ?thesis by (simp add: world0_def)
qed

section \<open>What the engine writes to the status table\<close>

lemma move_safe_db:
  assumes "move_safe e w src dest_dir = Inr (dest, w')"
  shows "db w' = db w"
proof -
  from assms obtain f1 d where
    r: "(let w1 = w\<lparr>fs := f1\<rparr> in
       if dry_run (ARGS e)
       then Inr (d, log (''[DRY-RUN] Would move '' @ path_str src @ '' -> '' @ path_str d) w1)
       else (case rename (xdev e) src d f1 of
               Inr f2 \<Rightarrow> Inr (d, w1\<lparr>fs := f2\<rparr>)
             | Inl _ \<Rightarrow>
                 bindE (copy2 src d f1) (\<lambda>f2.
                   (case unlink src f2 of
                      Inr f3 \<Rightarrow> Inr (d, w1\<lparr>fs := f3\<rparr>)
                    | Inl _ \<Rightarrow> Inr (d, w1\<lparr>fs := f2\<rparr>))))) = Inr (dest, w')"
    unfolding move_safe_def bindE_eq_Inr by blast
  have "case (let w1 = w\<lparr>fs := f1\<rparr> in
       if dry_run (ARGS e)
       then Inr (d, log (''[DRY-RUN] Would move '' @ path_str src @ '' -> '' @ path_str d) w1)
       else (case rename (xdev e) src d f1 of
               Inr f2 \<Rightarrow> Inr (d, w1\<lparr>fs := f2\<rparr>)
             | Inl _ \<Rightarrow>
                 bindE (copy2 src d f1) (\<lambda>f2.
                   (case unlink src f2 of
                      Inr f3 \<Rightarrow> Inr (d, w1\<lparr>fs := f3\<rparr>)
                    | Inl _ \<Rightarrow> Inr (d, w1\<lparr>fs := f2\<rparr>))))) of
          Inl _ \<Rightarrow> True | Inr res \<Rightarrow> db (snd res) = db w"
    by (simp add: Let_def bindE_def log_def split: sum.splits)
  with r show ?thesis by simp
qed

lemma db_mark_other: "p \<noteq> src \<Longrightarrow> db (mark w src st nt) p = db w p"
  by (simp add: mark_def)

lemma size_comparison_step_db:
  assumes "size_comparison_step e w src downloads_root output_root dest_tmp = Inr w'"
    and "p \<noteq> src"
  shows "db w' p = db w p"
proof -
  have "case size_comparison_step e w src downloads_root output_root dest_tmp of
          Inl _ \<Rightarrow> True | Inr res \<Rightarrow> db res p = db w p"
    using assms(2)
    by (auto simp add: size_comparison_step_def bindE_def db_mark_other
          split: sum.splits prod.splits dest!: move_safe_db)
  with assms(1) show ?thesis by simp
qed

lemma transcode_with_handbrake_db:
  "transcode_with_handbrake e w src dest_tmp = (rc, w') \<Longrightarrow> db w' = db w"
  by (auto simp add: transcode_with_handbrake_def log_def Let_def split: if_splits prod.splits)

lemma transcode_step_db:
  assumes "transcode_step e w src downloads_root output_root = Inr w'" and "p \<noteq> src"
  shows "db w' p = db w p"
proof -
  from assms(1) obtain m dest_tmp f2 where
    r: "(let (rc, w3) = transcode_with_handbrake e ((mark w src Queued (Some ''ready''))\<lparr>fs := f2\<rparr>) src dest_tmp in
        if rc \<noteq> 0 then
          (let w4 = log (''HandBrake failed for '' @ name src)
                     (mark w3 src Error (Some (''handbrake_exit_'' @ str_of_int rc))) in
           Inr (if exists (fs w4) dest_tmp then try_unlink dest_tmp w4 else w4))
        else if \<not> exists (fs w3) dest_tmp then
          Inr (log (''No transcode output for '' @ name src) (mark w3 src Error (Some ''no_output'')))
        else size_comparison_step e w3 src downloads_root output_root dest_tmp) = Inr w'"
    by (auto simp add: transcode_step_def bindE_eq_Inr Let_def)
  obtain rc w3 where t: "transcode_with_handbrake e ((mark w src Queued (Some ''ready''))\<lparr>fs := f2\<rparr>) src dest_tmp
       = (rc, w3)"
    by (cases "transcode_with_handbrake e ((mark w src Queued (Some ''ready''))\<lparr>fs := f2\<rparr>) src dest_tmp")
  from transcode_with_handbrake_db [OF t] assms(2) have d3: "db w3 p = db w p"
    by (simp add: db_mark_other)
  show ?thesis
  proof (cases "rc \<noteq> 0")
    case True
    with r t have "w' = (let w4 = log (''HandBrake failed for '' @ name src)
                     (mark w3 src Error (Some (''handbrake_exit_'' @ str_of_int rc))) in
           (if exists (fs w4) dest_tmp then try_unlink dest_tmp w4 else w4))"
      by (simp add: Let_def)
    with d3 assms(2) show ?thesis by (simp add: Let_def db_mark_other)
  next
    case False
    show ?thesis
    proof (cases "exists (fs w3) dest_tmp")
      case ex: False
      with False r t have "w' = log (''No transcode output for '' @ name src) (mark w3 src Error (Some ''no_output''))"
        by simp
      with d3 assms(2) show ?thesis by (simp add: db_mark_other)
    next
      case ex: True
      with False r t have "size_comparison_step e w3 src downloads_root output_root dest_tmp = Inr w'"
        by simp
      from size_comparison_step_db [OF this assms(2)] d3 show ?thesis by simp
    qed
  qed
qed

lemma probe_step_db:
  assumes "probe_step e w src downloads_root output_root = Inr w'" and "p \<noteq> src"
  shows "db w' p = db w p"
proof (cases "should_skip_by_probe (probe_video e w src)")
  case True
  with assms(1) obtain m moved w1 where
    ms: "move_safe e w src (parent m) = Inr (moved, w1)"
    and w': "w' = log (''SKIPPED BY PROBE -> moved original to '' @ path_str moved)
                (mark w1 src Skipped_moved (Some (''moved to '' @ path_str moved)))"
    by (auto simp add: probe_step_def bindE_eq_Inr)
  from move_safe_db [OF ms] w' assms(2) show ?thesis by (simp add: db_mark_other)
next
  case False
  with assms(1) have "transcode_step e w src downloads_root output_root = Inr w'"
    by (simp add: probe_step_def)
  from transcode_step_db [OF this assms(2)] show ?thesis .
qed

lemma process_movie_file_db:
  assumes "process_movie_file e w src downloads_root output_root = Inr w'" and "p \<noteq> src"
  shows "db w' p = db w p"
proof (cases "status_of w src \<in> set (map Some gated)")
  case True
  with assms(1) have "w' = w" by (simp add: process_movie_file_def)
  then show ?thesis by simp
next
  case g: False
  show ?thesis
  proof (cases "is_temporary_name (name src)")
    case True
    with g assms(1) have "w' = log (''Skipping temp file '' @ name src) w"
      by (simp add: process_movie_file_def)
    then show ?thesis by simp
  next
    case t: False
    let ?a = "if confirm (ARGS e) then ask_confirm e w (''Process file: '' @ path_str src @ ''?'')
              else Inr (True, w)"
    from g t assms(1) obtain yes w1 where a: "?a = Inr (yes, w1)"
      and r: "(if confirm (ARGS e) \<and> \<not> yes then
            Inr (log (''User skipped '' @ name src) (mark w1 src Skipped_by_user (Some ''user skipped'')))
          else
            (let w2 = log (''Processing file: '' @ path_str src) w1;
                 (stable, w3) = file_is_stable e w2 src SIZE_STABLE_SECONDS in
             if \<not> stable then Inr (log (''File not stable yet: '' @ path_str src) w3)
             else probe_step e w3 src downloads_root output_root)) = Inr w'"
      by (auto simp add: process_movie_file_def bindE_eq_Inr)
    from a have d1: "db w1 = db w"
      using ask_confirm_frame [of e w _ yes w1] by (auto split: if_splits)
    show ?thesis
    proof (cases "confirm (ARGS e) \<and> \<not> yes")
      case True
      with r have "w' = log (''User skipped '' @ name src) (mark w1 src Skipped_by_user (Some ''user skipped''))"
        by simp
      with d1 assms(2) show ?thesis by (simp add: db_mark_other)
    next
      case c: False
      let ?w2 = "log (''Processing file: '' @ path_str src) w1"
      obtain stable w3 where st: "file_is_stable e ?w2 src SIZE_STABLE_SECONDS = (stable, w3)"
        by (cases "file_is_stable e ?w2 src SIZE_STABLE_SECONDS")
      from file_is_stable_frame [OF st] d1 have d3: "db w3 = db w" by simp
      from c have c': "(confirm (ARGS e) \<and> \<not> yes) = False" by simp
      from r have r': "(let w2 = ?w2; (stable, w3) = file_is_stable e w2 src SIZE_STABLE_SECONDS in
             if \<not> stable then Inr (log (''File not stable yet: '' @ path_str src) w3)
             else probe_step e w3 src downloads_root output_root) = Inr w'"
        by (simp only: c' if_False)
      show ?thesis
      proof (cases stable)
        case False
        with r' st have "w' = log (''File not stable yet: '' @ path_str src) w3"
          by (simp add: Let_def)
        with d3 show ?thesis by simp
      next
        case True
        with r' st have "probe_step e w3 src downloads_root output_root = Inr w'"
          by (simp add: Let_def)
        from probe_step_db [OF this assms(2)] d3 show ?thesis by simp
      qed
    qed
  qed
qed

lemma relocated_is_gated: "s \<in> set (map Some relocated_original) \<Longrightarrow> s \<in> set (map Some gated)"
  by (auto simp add: relocated_original_def gated_def)

lemma process_movie_file_sticky:
  assumes "process_movie_file e w src downloads_root output_root = Inr w'"
    and "status_of w p \<in> set (map Some relocated_original)"
  shows "status_of w' p = status_of w p"
proof (cases "p = src")
  case True
  with assms(2) have "status_of w src \<in> set (map Some relocated_original)" by (simp only:)
  then have "status_of w src \<in> set (map Some gated)" by (rule relocated_is_gated)
  from gate_returns_at_once [OF this] assms(1) have "w' = w" by simp
  then show ?thesis by simp
next
  case False
  from process_movie_file_db [OF assms(1) False] show ?thesis by (simp add: status_of_def)
qed

section \<open>Which seasons are flagged\<close>

text \<open>No video belongs to two groups of the grouping.\<close>

definition disjoint_groups :: "(string \<times> path list) list \<Rightarrow> bool" where
  "disjoint_groups mapping =
     (\<forall>g1 \<in> set mapping. \<forall>g2 \<in> set mapping.
        fst g1 \<noteq> fst g2 \<longrightarrow> set (snd g1) \<inter> set (snd g2) = {})"

lemma process_videos_flags:
  "process_videos e w vids downloads_root output_root sk needs = Inr (needs', w') \<Longrightarrow>
   set needs' = set needs \<union>
      (if \<exists>v \<in> set vids. status_of w' v \<in> set (map Some relocated_original) then {sk} else {})
   \<and> (\<forall>p. status_of w p \<in> set (map Some relocated_original) \<longrightarrow> status_of w' p = status_of w p)
   \<and> (\<forall>p. p \<notin> set vids \<longrightarrow> db w' p = db w p)"
proof (induction vids arbitrary: w needs)
  case Nil
  then show ?case by simp
next
  case (Cons vid vids)
  let ?S = "set (map Some relocated_original)"
  from Cons.prems obtain w1 where
    p1: "process_movie_file e w vid downloads_root output_root = Inr w1"
    and r: "process_videos e w1 vids downloads_root output_root sk
              (if status_of w1 vid \<in> ?S then List.insert sk needs else needs) = Inr (needs', w')"
    by (auto simp add: bindE_eq_Inr Let_def)
  from Cons.IH [OF r] have
    n: "set needs' = set (if status_of w1 vid \<in> ?S then List.insert sk needs else needs) \<union>
          (if \<exists>v \<in> set vids. status_of w' v \<in> ?S then {sk} else {})"
    and st: "\<forall>p. status_of w1 p \<in> ?S \<longrightarrow> status_of w' p = status_of w1 p"
    and fr: "\<forall>p. p \<notin> set vids \<longrightarrow> db w' p = db w1 p"
    by blast+
  have sticky: "\<forall>p. status_of w p \<in> ?S \<longrightarrow> status_of w' p = status_of w p"
  proof (intro allI impI)
    fix p assume a: "status_of w p \<in> ?S"
    from process_movie_file_sticky [OF p1 a] have b: "status_of w1 p = status_of w p" .
    with a st show "status_of w' p = status_of w p" by simp
  qed
  have frame: "\<forall>p. p \<notin> set (vid # vids) \<longrightarrow> db w' p = db w p"
  proof (intro allI impI)
    fix p assume a: "p \<notin> set (vid # vids)"
    then have "p \<noteq> vid" "p \<notin> set vids" by simp_all
    with fr process_movie_file_db [OF p1, of p] show "db w' p = db w p" by simp
  qed
  have key: "(status_of w1 vid \<in> ?S \<or> (\<exists>v \<in> set vids. status_of w' v \<in> ?S))
               = (\<exists>v \<in> set (vid # vids). status_of w' v \<in> ?S)"
  proof
    assume "status_of w1 vid \<in> ?S \<or> (\<exists>v \<in> set vids. status_of w' v \<in> ?S)"
    then show "\<exists>v \<in> set (vid # vids). status_of w' v \<in> ?S"
    proof
      assume a: "status_of w1 vid \<in> ?S"
      with st have "status_of w' vid = status_of w1 vid" by blast
      with a show ?thesis by simp
    next
      assume "\<exists>v \<in> set vids. status_of w' v \<in> ?S"
      then show ?thesis by auto
    qed
  next
    assume "\<exists>v \<in> set (vid # vids). status_of w' v \<in> ?S"
    then obtain v where v: "v \<in> set (vid # vids)" "status_of w' v \<in> ?S" by blast
    show "status_of w1 vid \<in> ?S \<or> (\<exists>v \<in> set vids. status_of w' v \<in> ?S)"
    proof (cases "v \<in> set vids")
      case True
      with v show ?thesis by blast
    next
      case False
      with v have "v = vid" by simp
      with False fr have "db w' vid = db w1 vid" by blast
      then have "status_of w' vid = status_of w1 vid" by (simp add: status_of_def)
      with v \<open>v = vid\<close> show ?thesis by simp
    qed
  qed
  have "set needs' = set needs \<union>
      (if \<exists>v \<in> set (vid # vids). status_of w' v \<in> ?S then {sk} else {})"
    unfolding n key [symmetric] by auto
  with sticky frame show ?case by blast
qed

lemma process_seasons_flags:
  "process_seasons e w mapping downloads_root output_root needs = Inr (needs', w') \<Longrightarrow>
   distinct (map fst mapping) \<Longrightarrow> disjoint_groups mapping \<Longrightarrow>
   set needs' = set needs \<union>
      {k. k \<noteq> [] \<and> (\<exists>vids. (k, vids) \<in> set mapping
            \<and> (\<exists>v \<in> set vids. status_of w' v \<in> set (map Some relocated_original)))}
   \<and> (\<forall>p. status_of w p \<in> set (map Some relocated_original) \<longrightarrow> status_of w' p = status_of w p)
   \<and> (\<forall>p. (\<forall>g \<in> set mapping. fst g \<noteq> [] \<longrightarrow> p \<notin> set (snd g)) \<longrightarrow> db w' p = db w p)"
proof (induction mapping arbitrary: w needs)
  case Nil
  then show ?case by simp
next
  case (Cons g rest)
  let ?S = "set (map Some relocated_original)"
  obtain k vids where g: "g = (k, vids)" by (cases g)
  from Cons.prems(2) g have dk: "distinct (map fst rest)" and kn: "k \<notin> fst ` set rest" by simp_all
  from Cons.prems(3) have dj: "disjoint_groups rest" by (simp add: disjoint_groups_def)
  show ?case
  proof (cases "k = []")
    case True
    with Cons.prems(1) g have r: "process_seasons e w rest downloads_root output_root needs = Inr (needs', w')"
      by simp
    from Cons.IH [OF r dk dj] True g show ?thesis by auto
  next
    case False
    with Cons.prems(1) g obtain needs1 w1 where
      pv: "process_videos e w vids downloads_root output_root k needs = Inr (needs1, w1)"
      and r: "process_seasons e w1 rest downloads_root output_root needs1 = Inr (needs', w')"
      by (auto simp add: bindE_eq_Inr)
    from process_videos_flags [OF pv] have
      n1: "set needs1 = set needs \<union> (if \<exists>v \<in> set vids. status_of w1 v \<in> ?S then {k} else {})"
      and st1: "\<forall>p. status_of w p \<in> ?S \<longrightarrow> status_of w1 p = status_of w p"
      and fr1: "\<forall>p. p \<notin> set vids \<longrightarrow> db w1 p = db w p"
      by blast+
    from Cons.IH [OF r dk dj] have
      n2: "set needs' = set needs1 \<union>
             {k. k \<noteq> [] \<and> (\<exists>vids. (k, vids) \<in> set rest \<and> (\<exists>v \<in> set vids. status_of w' v \<in> ?S))}"
      and st2: "\<forall>p. status_of w1 p \<in> ?S \<longrightarrow> status_of w' p = status_of w1 p"
      and fr2: "\<forall>p. (\<forall>g \<in> set rest. fst g \<noteq> [] \<longrightarrow> p \<notin> set (snd g)) \<longrightarrow> db w' p = db w1 p"
      by blast+
    have apart: "v \<in> set vids \<Longrightarrow> h \<in> set rest \<Longrightarrow> v \<notin> set (snd h)" for v h
    proof -
      assume v: "v \<in> set vids" and h: "h \<in> set rest"
      from h kn have "fst h \<noteq> k" by auto
      with Cons.prems(3) g h have "set vids \<inter> set (snd h) = {}"
        by (auto simp add: disjoint_groups_def)
      with v show "v \<notin> set (snd h)" by auto
    qed
    have same: "v \<in> set vids \<Longrightarrow> status_of w' v = status_of w1 v" for v
    proof -
      assume "v \<in> set vids"
      with apart have "\<forall>g \<in> set rest. fst g \<noteq> [] \<longrightarrow> v \<notin> set (snd g)" by blast
      with fr2 have "db w' v = db w1 v" by blast
      then show ?thesis by (simp add: status_of_def)
    qed
    then have key: "(\<exists>v \<in> set vids. status_of w1 v \<in> ?S) = (\<exists>v \<in> set vids. status_of w' v \<in> ?S)"
      by auto
    have only_k: "(k, vs) \<in> set rest \<Longrightarrow> False" for vs
      using kn by force
    have a: "set needs' = set needs \<union>
      {k'. k' \<noteq> [] \<and> (\<exists>vs. (k', vs) \<in> set (g # rest) \<and> (\<exists>v \<in> set vs. status_of w' v \<in> ?S))}"
      unfolding n2 n1 key g using False by auto
    have b: "\<forall>p. status_of w p \<in> ?S \<longrightarrow> status_of w' p = status_of w p"
      using st1 st2 by auto
    have c: "\<forall>p. (\<forall>h \<in> set (g # rest). fst h \<noteq> [] \<longrightarrow> p \<notin> set (snd h)) \<longrightarrow> db w' p = db w p"
    proof (intro allI impI)
      fix p assume p: "\<forall>h \<in> set (g # rest). fst h \<noteq> [] \<longrightarrow> p \<notin> set (snd h)"
      with g False have "p \<notin> set vids" by simp
      with fr1 have "db w1 p = db w p" by blast
      moreover from p have "\<forall>h \<in> set rest. fst h \<noteq> [] \<longrightarrow> p \<notin> set (snd h)" by simp
      with fr2 have "db w' p = db w1 p" by blast
      ultimately show "db w' p = db w p" by simp
    qed
    from a b c show ?thesis by blast
  qed
qed

lemma process_groups_flags:
  assumes "process_groups e w mapping downloads_root output_root = Inr (needs, w2)"
    and "distinct (map fst mapping)" and "disjoint_groups mapping"
  shows "sk \<in> set needs \<longleftrightarrow>
     (\<exists>vids. map_of mapping sk = Some vids
        \<and> (\<exists>v \<in> set vids. status_of w2 v \<in> set (map Some relocated_original)))"
proof -
  let ?S = "set (map Some relocated_original)"
  from assms(1) obtain needs1 w1 where
    d: "(case map_of mapping [] of
              Some direct \<Rightarrow> process_videos e w direct downloads_root output_root [] []
            | None \<Rightarrow> Inr ([], w)) = Inr (needs1, w1)"
    and r: "process_seasons e w1 mapping downloads_root output_root needs1 = Inr (needs, w2)"
    by (auto simp add: process_groups_def bindE_eq_Inr)
  from process_seasons_flags [OF r assms(2,3)] have
    n2: "set needs = set needs1 \<union>
           {k. k \<noteq> [] \<and> (\<exists>vids. (k, vids) \<in> set mapping \<and> (\<exists>v \<in> set vids. status_of w2 v \<in> ?S))}"
    and st2: "\<forall>p. status_of w1 p \<in> ?S \<longrightarrow> status_of w2 p = status_of w1 p"
    and fr2: "\<forall>p. (\<forall>g \<in> set mapping. fst g \<noteq> [] \<longrightarrow> p \<notin> set (snd g)) \<longrightarrow> db w2 p = db w1 p"
    by blast+
  have mo: "map_of mapping k = Some vs \<longleftrightarrow> (k, vs) \<in> set mapping" for k vs
    using assms(2) by (simp add: map_of_eq_Some_iff)
  have n1: "set needs1 = (if \<exists>vids. map_of mapping [] = Some vids
                              \<and> (\<exists>v \<in> set vids. status_of w2 v \<in> ?S) then {[]} else {})"
  proof (cases "map_of mapping []")
    case None
    with d show ?thesis by simp
  next
    case (Some direct)
    with d have pv: "process_videos e w direct downloads_root output_root [] [] = Inr (needs1, w1)"
      by simp
    from process_videos_flags [OF pv] have
      a: "set needs1 = (if \<exists>v \<in> set direct. status_of w1 v \<in> ?S then {[]} else {})"
      by simp
    from Some mo have dm: "([], direct) \<in> set mapping" by simp
    have same: "v \<in> set direct \<Longrightarrow> status_of w2 v = status_of w1 v" for v
    proof -
      assume v: "v \<in> set direct"
      have "\<forall>g \<in> set mapping. fst g \<noteq> [] \<longrightarrow> v \<notin> set (snd g)"
      proof (intro ballI impI)
        fix g assume g: "g \<in> set mapping" "fst g \<noteq> []"
        with assms(3) dm have "set direct \<inter> set (snd g) = {}"
          by (fastforce simp add: disjoint_groups_def)
        with v show "v \<notin> set (snd g)" by auto
      qed
      with fr2 have "db w2 v = db w1 v" by blast
      then show ?thesis by (simp add: status_of_def)
    qed
    then have "(\<exists>v \<in> set direct. status_of w1 v \<in> ?S) = (\<exists>v \<in> set direct. status_of w2 v \<in> ?S)"
      by auto
    with a Some show ?thesis by simp
  qed
  show ?thesis
  proof (cases "sk = []")
    case True
    with n2 n1 show ?thesis by (auto split: if_splits)
  next
    case False
    with n2 n1 mo show ?thesis by (auto split: if_splits)
  qed
qed

section \<open>The groups of a grouping are apart\<close>

text \<open>Where a video of group \<open>k\<close> of the show \<open>topd\<close> lies: directly in the show for the
  empty key, below the directory \<open>topd/k\<close> otherwise.\<close>

definition placed :: "path \<Rightarrow> string \<Rightarrow> path \<Rightarrow> bool" where
  "placed topd k v =
     (prefix topd v \<and>
      (length v = length topd + 1 \<and> k = []
       \<or> length topd + 2 \<le> length v \<and> v ! length topd = k))"

lemma placed_key: "placed topd k v \<Longrightarrow> placed topd k' v \<Longrightarrow> k = k'"
  by (auto simp add: placed_def)

lemma iterdir_children: "iterdir F d = Inr es \<Longrightarrow> p \<in> set es \<Longrightarrow> p \<noteq> [] \<and> butlast p = d"
  by (auto simp add: iterdir_def split: option.splits node.splits)

lemma child_form: "p \<noteq> [] \<Longrightarrow> butlast p = d \<Longrightarrow> p = d @ [name p]"
  by (simp add: name_def) (metis append_butlast_last_id)

lemma season_videos_placed:
  assumes "d = topd @ [n]" and "p \<noteq> []" and "butlast p = d" and "v \<in> set (season_videos F p)"
  shows "placed topd n v"
proof -
  from child_form [OF assms(2,3)] assms(1) have p: "p = topd @ [n, name p]" by simp
  from assms(4) have "v = p \<or> strict_prefix p v"
    by (auto simp add: season_videos_def rglob_def split: if_splits)
  then have "prefix p v" by (auto simp add: strict_prefix_def)
  then obtain r where "v = p @ r" by (auto simp add: prefix_def)
  with p have v: "v = topd @ [n, name p] @ r" by simp
  show ?thesis unfolding placed_def
    by (subst (1 2 3 4) v) (simp add: nth_append)
qed

lemma update_entries: "g \<in> set (AList.update k v al) \<Longrightarrow> g = (k, v) \<or> g \<in> set al"
  by (induction al) (auto split: if_splits)

lemma collect_seasons_placed:
  "collect_seasons F ds out = Inr mapping \<Longrightarrow>
   \<forall>d \<in> set ds. d \<noteq> [] \<and> butlast d = topd \<Longrightarrow>
   \<forall>g \<in> set out. \<forall>v \<in> set (snd g). placed topd (fst g) v \<Longrightarrow> distinct (map fst out) \<Longrightarrow>
   (\<forall>g \<in> set mapping. \<forall>v \<in> set (snd g). placed topd (fst g) v) \<and> distinct (map fst mapping)"
proof (induction ds arbitrary: out)
  case Nil
  then show ?case by simp
next
  case (Cons d ds)
  from Cons.prems(1) obtain inside where i: "iterdir F d = Inr inside" by (auto simp add: bindE_eq_Inr)
  define vids where "vids = concat (map (season_videos F) inside)"
  let ?out = "if vids \<noteq> [] then AList.update (name d) vids out else out"
  from Cons.prems(1) i have r: "collect_seasons F ds ?out = Inr mapping"
    by (auto simp add: vids_def Let_def simp del: concat_eq_Nil_conv split: if_splits)
  from Cons.prems(2) have d: "d \<noteq> []" "butlast d = topd" by simp_all
  from child_form [OF d] have df: "d = topd @ [name d]" .
  have pv: "\<forall>v \<in> set vids. placed topd (name d) v"
  proof
    fix v assume "v \<in> set vids"
    then obtain p where p: "p \<in> set inside" "v \<in> set (season_videos F p)"
      by (auto simp add: vids_def)
    from iterdir_children [OF i p(1)] have "p \<noteq> []" "butlast p = d" by simp_all
    from season_videos_placed [OF df this p(2)] show "placed topd (name d) v" .
  qed
  have a: "\<forall>g \<in> set ?out. \<forall>v \<in> set (snd g). placed topd (fst g) v"
  proof (cases "vids = []")
    case True
    with Cons.prems(3) show ?thesis by simp
  next
    case False
    have "\<forall>g \<in> set (AList.update (name d) vids out). \<forall>v \<in> set (snd g). placed topd (fst g) v"
    proof
      fix g assume "g \<in> set (AList.update (name d) vids out)"
      from update_entries [OF this] show "\<forall>v \<in> set (snd g). placed topd (fst g) v"
      proof
        assume "g = (name d, vids)"
        with pv show ?thesis by simp
      next
        assume "g \<in> set out"
        with Cons.prems(3) show ?thesis by blast
      qed
    qed
    with False show ?thesis by simp
  qed
  have b: "distinct (map fst ?out)"
    using Cons.prems(4) by (simp add: distinct_update)
  from Cons.prems(2) have c: "\<forall>d \<in> set ds. d \<noteq> [] \<and> butlast d = topd" by simp
  from Cons.IH [OF r c a b] show ?case .
qed

lemma collect_groups_apart:
  assumes "collect_videos_two_depth F topd = Inr mapping"
  shows "distinct (map fst mapping) \<and> disjoint_groups mapping"
proof -
  from assms obtain entries where e: "iterdir F topd = Inr entries"
    by (auto simp add: collect_videos_two_depth_def bindE_eq_Inr)
  define direct where "direct = filter (\<lambda>p. is_file F p \<and> is_video p) entries"
  let ?out = "if direct \<noteq> [] then [([], direct)] else []"
  from assms e have r: "collect_seasons F (filter (is_dir F) entries) ?out = Inr mapping"
    by (auto simp add: collect_videos_two_depth_def direct_def Let_def split: if_splits)
  have a: "\<forall>d \<in> set (filter (is_dir F) entries). d \<noteq> [] \<and> butlast d = topd"
    using iterdir_children [OF e] by simp
  have "\<forall>v \<in> set direct. placed topd [] v"
  proof
    fix v assume "v \<in> set direct"
    then have "v \<in> set entries" by (simp add: direct_def)
    from iterdir_children [OF e this] have "v \<noteq> []" "butlast v = topd" by simp_all
    from child_form [OF this] have v: "v = topd @ [name v]" .
    show "placed topd [] v" unfolding placed_def by (subst (1 2) v) simp
  qed
  then have b: "\<forall>g \<in> set ?out. \<forall>v \<in> set (snd g). placed topd (fst g) v" by simp
  have c: "distinct (map fst ?out)" by simp
  from collect_seasons_placed [OF r a b c] have
    pl: "\<forall>g \<in> set mapping. \<forall>v \<in> set (snd g). placed topd (fst g) v"
    and di: "distinct (map fst mapping)" by simp_all
  have "disjoint_groups mapping" unfolding disjoint_groups_def
  proof (intro ballI impI)
    fix g1 g2 assume g: "g1 \<in> set mapping" "g2 \<in> set mapping" "fst g1 \<noteq> fst g2"
    show "set (snd g1) \<inter> set (snd g2) = {}"
    proof (rule ccontr)
      assume "set (snd g1) \<inter> set (snd g2) \<noteq> {}"
      then obtain v where "v \<in> set (snd g1)" "v \<in> set (snd g2)" by blast
      with pl g have "placed topd (fst g1) v" "placed topd (fst g2) v" by blast+
      from placed_key [OF this] g(3) show False by simp
    qed
  qed
  with di show ?thesis by simp
qed

section \<open>The season-level copy: stamping\<close>

lemma stamp_copied_Cons:
  "stamp_copied w (f # files) d
     = stamp_copied (mark w f Copied_season (Some (''season copied to '' @ path_str d))) files d"
  by (simp add: stamp_copied_def)

lemma stamp_copied_frame:
  "fs (stamp_copied w files d) = fs w \<and> hb_runs (stamp_copied w files d) = hb_runs w"
proof (induction files arbitrary: w)
  case Nil
  then show ?case by (simp add: stamp_copied_def)
next
  case (Cons f files)
  from Cons [of "mark w f Copied_season (Some (''season copied to '' @ path_str d))"]
  show ?case by (simp add: stamp_copied_Cons)
qed

lemma stamp_copied_status:
  "status_of (stamp_copied w files d) p
     = (if p \<in> set files then Some Copied_season else status_of w p)"
proof (induction files arbitrary: w)
  case Nil
  then show ?case by (simp add: stamp_copied_def)
next
  case (Cons f files)
  from Cons [of "mark w f Copied_season (Some (''season copied to '' @ path_str d))"]
  show ?case by (simp add: stamp_copied_Cons)
qed

text \<open>A copy keeps what is there: a file stays a file and a directory a directory.\<close>

definition keeps_kinds :: "filesys \<Rightarrow> filesys \<Rightarrow> bool" where
  "keeps_kinds F F' = (\<forall>p. (is_file F p \<longrightarrow> is_file F' p) \<and> (is_dir F p \<longrightarrow> is_dir F' p))"

lemma keeps_kinds_refl [simp]: "keeps_kinds F F"
  by (simp add: keeps_kinds_def)

lemma keeps_kinds_trans: "keeps_kinds F G \<Longrightarrow> keeps_kinds G H \<Longrightarrow> keeps_kinds F H"
  by (simp add: keeps_kinds_def)

lemma ensure_dir_keeps_kinds: "ensure_dir p F = Inr F' \<Longrightarrow> keeps_kinds F F'"
  unfolding keeps_kinds_def
proof (intro allI conjI impI)
  fix q assume a: "ensure_dir p F = Inr F'"
  { assume "is_file F q"
    then show "is_file F' q" using ensure_dir_node_at [OF a, of q]
      by (auto simp add: is_file_def split: option.splits) }
  { assume "is_dir F q"
    then show "is_dir F' q" using ensure_dir_node_at [OF a, of q]
      by (auto simp add: is_dir_def split: option.splits) }
qed

lemma copy2_keeps_kinds: "copy2 k t F = Inr F' \<Longrightarrow> keeps_kinds F F'"
proof -
  assume a: "copy2 k t F = Inr F'"
  let ?t = "if is_dir F t then join t (name k) else t"
  from a obtain s c where n: "node_at F k = Some (File s c)" and nd: "\<not> is_dir F ?t"
    and F': "F' = AList.update ?t (File s c) F"
    by (auto simp add: copy2_def Let_def split: option.splits node.splits if_splits)
  show ?thesis
  proof (cases "?t = []")
    case True
    with nd show ?thesis by (simp add: is_dir_def node_at_def)
  next
    case False
    show ?thesis unfolding keeps_kinds_def
    proof (intro allI conjI impI)
      fix q
      { assume "is_file F q"
        then show "is_file F' q" using False F'
          by (cases "q = ?t") (simp_all add: is_file_def node_at_update del: if_split) }
      { assume d: "is_dir F q"
        with nd have "q \<noteq> ?t" by auto
        with d show "is_dir F' q" using False F'
          by (simp add: is_dir_def node_at_update del: if_split) }
    qed
  qed
qed

lemma copy_entries_keeps_kinds:
  "copy_entries src dest ks cur = Inr res \<Longrightarrow> keeps_kinds cur res"
proof (induction ks arbitrary: cur)
  case Nil
  then show ?case by simp
next
  case (Cons k ks)
  show ?case
  proof (cases "node_at cur k")
    case None
    with Cons.prems have "copy_entries src dest ks cur = Inr res" by (simp add: Let_def)
    from Cons.IH [OF this] show ?thesis .
  next
    case (Some n)
    show ?thesis
    proof (cases n)
      case Dir
      with Some Cons.prems obtain c1 where e: "ensure_dir (reroot src dest k) cur = Inr c1"
        and r: "copy_entries src dest ks c1 = Inr res"
        by (auto simp add: Let_def split: sum.splits)
      from ensure_dir_keeps_kinds [OF e] Cons.IH [OF r] show ?thesis
        by (rule keeps_kinds_trans)
    next
      case (File s c)
      with Some Cons.prems obtain c0 c1 where e: "ensure_dir (parent (reroot src dest k)) cur = Inr c0"
        and c: "copy2 k (reroot src dest k) c0 = Inr c1"
        and r: "copy_entries src dest ks c1 = Inr res"
        by (auto simp add: Let_def bindE_eq_Inr split: sum.splits)
      from ensure_dir_keeps_kinds [OF e] copy2_keeps_kinds [OF c]
      have "keeps_kinds cur c1" by (rule keeps_kinds_trans)
      from this Cons.IH [OF r] show ?thesis by (rule keeps_kinds_trans)
    qed
  qed
qed

lemma copy_tree_safe_keeps:
  assumes "copy_tree_safe e w src_dir dest_dir = Inr w'"
  shows "keeps_kinds (fs w) (fs w') \<and> db w' = db w \<and> hb_runs w' = hb_runs w"
proof -
  from assms obtain f1 where e: "ensure_dir dest_dir (fs w) = Inr f1"
    and r: "(if dry_run (ARGS e)
       then Inr (log (''[DRY-RUN] Would copy tree '' @ path_str src_dir @ '' -> '' @ path_str dest_dir)
                  (w\<lparr>fs := f1\<rparr>))
       else bindE (copytree src_dir dest_dir f1) (\<lambda>f2. Inr (w\<lparr>fs := f1, fs := f2\<rparr>))) = Inr w'"
    by (auto simp add: copy_tree_safe_def bindE_eq_Inr Let_def)
  from ensure_dir_keeps_kinds [OF e] have k1: "keeps_kinds (fs w) f1" .
  show ?thesis
  proof (cases "dry_run (ARGS e)")
    case True
    with r k1 show ?thesis by (auto simp add: log_def)
  next
    case False
    with r obtain f2 where ct: "copytree src_dir dest_dir f1 = Inr f2" and w': "w' = w\<lparr>fs := f2\<rparr>"
      by (auto simp add: bindE_eq_Inr)
    from ct obtain f3 where e2: "ensure_dir dest_dir f1 = Inr f3"
      and ce: "copy_entries src_dir dest_dir (rglob f1 src_dir) f3 = Inr f2"
      by (auto simp add: copytree_def bindE_eq_Inr split: option.splits node.splits)
    from ensure_dir_keeps_kinds [OF e2] copy_entries_keeps_kinds [OF ce]
    have "keeps_kinds f1 f2" by (rule keeps_kinds_trans)
    with k1 have "keeps_kinds (fs w) f2" by (rule keeps_kinds_trans)
    with w' show ?thesis by simp
  qed
qed

lemma exists_kinds: "exists F p = (is_file F p \<or> is_dir F p)"
  by (auto simp add: exists_def is_file_def is_dir_def split: option.splits node.splits)

lemma keeps_kinds_exists: "keeps_kinds F F' \<Longrightarrow> exists F p \<Longrightarrow> exists F' p"
  by (auto simp add: exists_kinds keeps_kinds_def)

lemma is_file_listed: "is_file F f \<Longrightarrow> f \<in> set (remdups (map fst F))"
proof -
  assume "is_file F f"
  then have "map_of F f \<noteq> None"
    by (auto simp add: is_file_def node_at_def split: if_splits option.splits)
  then show ?thesis by (simp add: map_of_eq_None_iff)
qed

lemma copy_seasons_step:
  assumes "copy_seasons e w (sk # sks) topdir downloads_root output_root = Inr w'"
  shows "\<exists>rel. relative_to topdir downloads_root = Inr rel
     \<and> (if exists (fs w) (if sk = [] then topdir else topdir @ [sk])
         then \<exists>w1. copy_tree_safe e
                     (log (''Season-level copy: '' @ path_str (if sk = [] then topdir else topdir @ [sk])
                           @ '' -> '' @ path_str (if sk = [] then output_root @ rel
                                                   else output_root @ (rel @ [sk]))) w)
                     (if sk = [] then topdir else topdir @ [sk])
                     (if sk = [] then output_root @ rel else output_root @ (rel @ [sk])) = Inr w1
                \<and> copy_seasons e
                     (stamp_copied w1
                        (filter (\<lambda>f. is_file (fs w1) f \<and> is_video f)
                           (rglob (fs w1) (if sk = [] then topdir else topdir @ [sk])))
                        (if sk = [] then output_root @ rel else output_root @ (rel @ [sk])))
                     sks topdir downloads_root output_root = Inr w'
         else copy_seasons e w sks topdir downloads_root output_root = Inr w')"
  using assms by (auto simp add: bindE_eq_Inr Let_def split: if_splits)

lemma copy_seasons_keeps:
  "copy_seasons e w sks topdir downloads_root output_root = Inr w' \<Longrightarrow>
   keeps_kinds (fs w) (fs w') \<and> hb_runs w' = hb_runs w
   \<and> (\<forall>p. status_of w p = Some Copied_season \<longrightarrow> status_of w' p = Some Copied_season)"
proof (induction sks arbitrary: w)
  case Nil
  then show ?case by simp
next
  case (Cons sk sks)
  let ?src = "if sk = [] then topdir else topdir @ [sk]"
  from copy_seasons_step [OF Cons.prems] obtain rel where
    st: "if exists (fs w) ?src
         then \<exists>w1. copy_tree_safe e
                     (log (''Season-level copy: '' @ path_str ?src
                           @ '' -> '' @ path_str (if sk = [] then output_root @ rel
                                                   else output_root @ (rel @ [sk]))) w)
                     ?src (if sk = [] then output_root @ rel else output_root @ (rel @ [sk])) = Inr w1
                \<and> copy_seasons e
                     (stamp_copied w1
                        (filter (\<lambda>f. is_file (fs w1) f \<and> is_video f) (rglob (fs w1) ?src))
                        (if sk = [] then output_root @ rel else output_root @ (rel @ [sk])))
                     sks topdir downloads_root output_root = Inr w'
         else copy_seasons e w sks topdir downloads_root output_root = Inr w'"
    by blast
  show ?case
  proof (cases "exists (fs w) ?src")
    case False
    with st have "copy_seasons e w sks topdir downloads_root output_root = Inr w'" by simp
    from Cons.IH [OF this] show ?thesis .
  next
    case True
    with st obtain w1 where
      ct: "copy_tree_safe e
             (log (''Season-level copy: '' @ path_str ?src
                   @ '' -> '' @ path_str (if sk = [] then output_root @ rel
                                           else output_root @ (rel @ [sk]))) w)
             ?src (if sk = [] then output_root @ rel else output_root @ (rel @ [sk])) = Inr w1"
      and r: "copy_seasons e
                (stamp_copied w1
                   (filter (\<lambda>f. is_file (fs w1) f \<and> is_video f) (rglob (fs w1) ?src))
                   (if sk = [] then output_root @ rel else output_root @ (rel @ [sk])))
                sks topdir downloads_root output_root = Inr w'"
      by auto
    from copy_tree_safe_keeps [OF ct] have
      k1: "keeps_kinds (fs w) (fs w1)" and d1: "db w1 = db w" and h1: "hb_runs w1 = hb_runs w"
      by simp_all
    let ?ws = "stamp_copied w1
                   (filter (\<lambda>f. is_file (fs w1) f \<and> is_video f) (rglob (fs w1) ?src))
                   (if sk = [] then output_root @ rel else output_root @ (rel @ [sk]))"
    from Cons.IH [OF r] have
      k2: "keeps_kinds (fs ?ws) (fs w')" and h2: "hb_runs w' = hb_runs ?ws"
      and s2: "\<forall>p. status_of ?ws p = Some Copied_season \<longrightarrow> status_of w' p = Some Copied_season"
      by simp_all
    have a: "keeps_kinds (fs w) (fs w')"
      using k1 k2 by (simp add: stamp_copied_frame) (rule keeps_kinds_trans)
    have b: "hb_runs w' = hb_runs w" using h1 h2 by (simp add: stamp_copied_frame)
    have c: "\<forall>p. status_of w p = Some Copied_season \<longrightarrow> status_of w' p = Some Copied_season"
    proof (intro allI impI)
      fix p assume "status_of w p = Some Copied_season"
      with d1 have "status_of w1 p = Some Copied_season" by (simp add: status_of_def)
      then have "status_of ?ws p = Some Copied_season" by (simp add: stamp_copied_status)
      with s2 show "status_of w' p = Some Copied_season" by blast
    qed
    from a b c show ?thesis by blast
  qed
qed

lemma copy_seasons_stamps:
  "copy_seasons e w sks topdir downloads_root output_root = Inr w' \<Longrightarrow>
   sk \<in> set sks \<Longrightarrow> exists (fs w) (if sk = [] then topdir else topdir @ [sk]) \<Longrightarrow>
   strict_prefix (if sk = [] then topdir else topdir @ [sk]) f \<Longrightarrow>
   is_file (fs w) f \<Longrightarrow> is_video f \<Longrightarrow>
   status_of w' f = Some Copied_season"
proof (induction sks arbitrary: w)
  case Nil
  then show ?case by simp
next
  case (Cons a sks)
  let ?src = "if a = [] then topdir else topdir @ [a]"
  from copy_seasons_step [OF Cons.prems(1)] obtain rel where
    st: "if exists (fs w) ?src
         then \<exists>w1. copy_tree_safe e
                     (log (''Season-level copy: '' @ path_str ?src
                           @ '' -> '' @ path_str (if a = [] then output_root @ rel
                                                   else output_root @ (rel @ [a]))) w)
                     ?src (if a = [] then output_root @ rel else output_root @ (rel @ [a])) = Inr w1
                \<and> copy_seasons e
                     (stamp_copied w1
                        (filter (\<lambda>f. is_file (fs w1) f \<and> is_video f) (rglob (fs w1) ?src))
                        (if a = [] then output_root @ rel else output_root @ (rel @ [a])))
                     sks topdir downloads_root output_root = Inr w'
         else copy_seasons e w sks topdir downloads_root output_root = Inr w'"
    by blast
  show ?case
  proof (cases "exists (fs w) ?src")
    case False
    with st have r: "copy_seasons e w sks topdir downloads_root output_root = Inr w'" by simp
    from False Cons.prems(2,3) have "sk \<in> set sks" by auto
    from Cons.IH [OF r this Cons.prems(3,4,5,6)] show ?thesis .
  next
    case True
    with st obtain w1 where
      ct: "copy_tree_safe e
             (log (''Season-level copy: '' @ path_str ?src
                   @ '' -> '' @ path_str (if a = [] then output_root @ rel
                                           else output_root @ (rel @ [a]))) w)
             ?src (if a = [] then output_root @ rel else output_root @ (rel @ [a])) = Inr w1"
      and r: "copy_seasons e
                (stamp_copied w1
                   (filter (\<lambda>f. is_file (fs w1) f \<and> is_video f) (rglob (fs w1) ?src))
                   (if a = [] then output_root @ rel else output_root @ (rel @ [a])))
                sks topdir downloads_root output_root = Inr w'"
      by auto
    let ?ws = "stamp_copied w1
                   (filter (\<lambda>f. is_file (fs w1) f \<and> is_video f) (rglob (fs w1) ?src))
                   (if a = [] then output_root @ rel else output_root @ (rel @ [a]))"
    from copy_tree_safe_keeps [OF ct] have k1: "keeps_kinds (fs w) (fs w1)" by simp
    from k1 Cons.prems(5) have f1: "is_file (fs w1) f" by (simp add: keeps_kinds_def)
    show ?thesis
    proof (cases "sk = a")
      case True
      have sp: "strict_prefix ?src f"
        using Cons.prems(4) unfolding True .
      from sp f1 is_file_listed [OF f1] Cons.prems(6)
      have "f \<in> set (filter (\<lambda>f. is_file (fs w1) f \<and> is_video f) (rglob (fs w1) ?src))"
        by (simp add: rglob_def)
      then have "status_of ?ws f = Some Copied_season" by (simp add: stamp_copied_status)
      with copy_seasons_keeps [OF r] show ?thesis by blast
    next
      case False
      with Cons.prems(2) have m: "sk \<in> set sks" by simp
      have e: "exists (fs ?ws) (if sk = [] then topdir else topdir @ [sk])"
        using keeps_kinds_exists [OF k1 Cons.prems(3)] by (simp add: stamp_copied_frame)
      have f: "is_file (fs ?ws) f" using f1 by (simp add: stamp_copied_frame)
      from Cons.IH [OF r m e Cons.prems(4) f Cons.prems(6)] show ?thesis .
    qed
  qed
qed

subsection \<open>The season-level copy: what arrives in the mirrored tree\<close>

text \<open>
  The mirrored path of a source path \<open>k\<close> below the show directory \<open>T\<close> is \<open>reroot T M k\<close>, where
  \<open>M\<close> is the mirrored show directory. A season directory \<open>T @ s\<close> is copied to \<open>M @ s\<close>, and
  both ways of re-rooting agree below the season.
\<close>

lemma reroot_below:
  "prefix (T @ s) k \<Longrightarrow> reroot (T @ s) (M @ s) k = reroot T M k"
  by (auto simp add: reroot_def prefix_def)

lemma reroot_inj:
  "prefix T k \<Longrightarrow> prefix T k' \<Longrightarrow> reroot T M k = reroot T M k' \<Longrightarrow> k = k'"
  by (auto simp add: reroot_def prefix_def)

lemma reroot_prefix:
  "prefix T k \<Longrightarrow> prefix T k' \<Longrightarrow> prefix (reroot T M k) (reroot T M k') = prefix k k'"
  by (auto simp add: reroot_def prefix_def)

lemma reroot_nonempty: "strict_prefix T k \<Longrightarrow> reroot T M k \<noteq> []"
  by (auto simp add: reroot_def strict_prefix_def prefix_def)

lemma reroot_under: "prefix T k \<Longrightarrow> prefix M (reroot T M k)"
  by (simp add: reroot_def)

lemma apart:
  "\<not> prefix T M \<Longrightarrow> \<not> prefix M T \<Longrightarrow> prefix T q \<Longrightarrow> prefix q (reroot T M k) \<Longrightarrow> prefix T k \<Longrightarrow> False"
proof -
  assume a: "\<not> prefix T M" "\<not> prefix M T" and b: "prefix T q" "prefix q (reroot T M k)" "prefix T k"
  from b have "prefix T (reroot T M k)" by (meson prefix_order.trans)
  moreover from b have "prefix M (reroot T M k)" by (simp add: reroot_def)
  ultimately have "prefix T M \<or> prefix M T" by (rule prefix_same_cases)
  with a show False by simp
qed

text \<open>
  The copy needs a source that is a tree (nothing below a file) and a destination that
  holds no directory where a file of the source is to arrive: \<^verbatim>\<open>copy2\<close> would put the
  file inside that directory.
\<close>

definition tidy :: "path \<Rightarrow> path \<Rightarrow> filesys \<Rightarrow> bool" where
  "tidy T M F =
     list_all (\<lambda>k. strict_prefix T k \<and> is_file F k \<longrightarrow>
                 \<not> is_dir F (reroot T M k) \<and> list_all (\<lambda>k'. \<not> strict_prefix k k') (map fst F))
       (map fst F)"

lemma node_listed: "node_at F k = Some n \<Longrightarrow> k \<noteq> [] \<Longrightarrow> k \<in> set (map fst F)"
proof -
  assume "node_at F k = Some n" "k \<noteq> []"
  then have "map_of F k \<noteq> None" by (simp add: node_at_def)
  then show ?thesis by (simp add: map_of_eq_None_iff)
qed

lemma listed_node: "k \<in> set (map fst F) \<Longrightarrow> node_at F k \<noteq> None"
proof -
  assume "k \<in> set (map fst F)"
  then have "map_of F k \<noteq> None" by (simp add: map_of_eq_None_iff)
  then show ?thesis by (simp add: node_at_def)
qed

lemma tidy_iff:
  "tidy T M F \<longleftrightarrow>
     (\<forall>k. strict_prefix T k \<and> is_file F k \<longrightarrow>
        \<not> is_dir F (reroot T M k) \<and> (\<forall>k'. strict_prefix k k' \<longrightarrow> node_at F k' = None))"
proof
  assume t: "tidy T M F"
  show "\<forall>k. strict_prefix T k \<and> is_file F k \<longrightarrow>
        \<not> is_dir F (reroot T M k) \<and> (\<forall>k'. strict_prefix k k' \<longrightarrow> node_at F k' = None)"
  proof (intro allI impI)
    fix k assume k: "strict_prefix T k \<and> is_file F k"
    then have "k \<in> set (map fst F)" using is_file_listed [of F k] by simp
    with t k have a: "\<not> is_dir F (reroot T M k)"
      and b: "\<forall>k' \<in> set (map fst F). \<not> strict_prefix k k'"
      by (auto simp add: tidy_def list_all_iff)
    have "\<forall>k'. strict_prefix k k' \<longrightarrow> node_at F k' = None"
    proof (intro allI impI)
      fix k' assume s: "strict_prefix k k'"
      then have ne: "k' \<noteq> []" by auto
      show "node_at F k' = None"
      proof (cases "node_at F k'")
        case (Some n)
        from node_listed [OF Some ne] b s show ?thesis by blast
      qed simp
    qed
    with a show "\<not> is_dir F (reroot T M k) \<and> (\<forall>k'. strict_prefix k k' \<longrightarrow> node_at F k' = None)"
      by simp
  qed
next
  assume r: "\<forall>k. strict_prefix T k \<and> is_file F k \<longrightarrow>
        \<not> is_dir F (reroot T M k) \<and> (\<forall>k'. strict_prefix k k' \<longrightarrow> node_at F k' = None)"
  show "tidy T M F"
    unfolding tidy_def list_all_iff
  proof (intro ballI impI conjI)
    fix k assume "k \<in> set (map fst F)" and k: "strict_prefix T k \<and> is_file F k"
    with r show "\<not> is_dir F (reroot T M k)" by blast
  next
    fix k k' assume "k \<in> set (map fst F)" and k: "strict_prefix T k \<and> is_file F k"
      and k': "k' \<in> set (map fst F)"
    show "\<not> strict_prefix k k'"
    proof
      assume "strict_prefix k k'"
      with r k have "node_at F k' = None" by blast
      with listed_node [OF k'] show False by simp
    qed
  qed
qed

text \<open>
  One step of the copy, seen from the tree before it: a path keeps its node, or a
  directory appears on the way to a mirrored path, or a file of the source arrives at its
  mirrored path.
\<close>

definition mirror_step :: "path \<Rightarrow> path \<Rightarrow> filesys \<Rightarrow> filesys \<Rightarrow> bool" where
  "mirror_step T M F F' =
     (\<forall>q. node_at F' q = node_at F q
        \<or> (node_at F q = None \<and> node_at F' q = Some Dir
            \<and> (\<exists>k. prefix T k \<and> node_at F k \<noteq> None \<and> prefix q (reroot T M k)
                   \<and> (q = reroot T M k \<longrightarrow> is_dir F k)))
        \<or> (\<not> is_dir F q
            \<and> (\<exists>k. strict_prefix T k \<and> is_file F k \<and> q = reroot T M k
                   \<and> node_at F' q = node_at F k)))"

lemma mirror_step_refl: "mirror_step T M F F"
  by (simp add: mirror_step_def)

lemma mirror_step_source:
  assumes "\<not> prefix T M" "\<not> prefix M T" "mirror_step T M F F'" "prefix T q"
  shows "node_at F' q = node_at F q"
proof -
  from assms(3) have
    "node_at F' q = node_at F q
        \<or> (node_at F q = None \<and> node_at F' q = Some Dir
            \<and> (\<exists>k. prefix T k \<and> node_at F k \<noteq> None \<and> prefix q (reroot T M k)
                   \<and> (q = reroot T M k \<longrightarrow> is_dir F k)))
        \<or> (\<not> is_dir F q
            \<and> (\<exists>k. strict_prefix T k \<and> is_file F k \<and> q = reroot T M k
                   \<and> node_at F' q = node_at F k))"
    unfolding mirror_step_def ..
  then show ?thesis
  proof (elim disjE conjE exE)
    fix k assume "prefix T k" "prefix q (reroot T M k)"
    with apart [OF assms(1,2,4)] show ?thesis by blast
  next
    fix k assume "strict_prefix T k" "q = reroot T M k"
    then have "prefix T k" "prefix q (reroot T M k)" by auto
    with apart [OF assms(1,2,4)] show ?thesis by blast
  qed
qed

lemma mirror_stepD:
  "mirror_step T M F F' \<Longrightarrow>
   node_at F' q = node_at F q
     \<or> (node_at F q = None \<and> node_at F' q = Some Dir
         \<and> (\<exists>k. prefix T k \<and> node_at F k \<noteq> None \<and> prefix q (reroot T M k)
                \<and> (q = reroot T M k \<longrightarrow> is_dir F k)))
     \<or> (\<not> is_dir F q
         \<and> (\<exists>k. strict_prefix T k \<and> is_file F k \<and> q = reroot T M k
                \<and> node_at F' q = node_at F k))"
  unfolding mirror_step_def by (erule allE)

lemma is_file_not_dir: "is_file F k \<Longrightarrow> \<not> is_dir F k"
  by (auto simp add: is_file_def is_dir_def)

lemma is_file_cong: "node_at F' k = node_at F k \<Longrightarrow> is_file F' k = is_file F k"
  by (simp add: is_file_def)

lemma is_dir_cong: "node_at F' k = node_at F k \<Longrightarrow> is_dir F' k = is_dir F k"
  by (simp add: is_dir_def)

lemma mirror_step_tidy:
  assumes ap: "\<not> prefix T M" "\<not> prefix M T" and t: "tidy T M F" and st: "mirror_step T M F F'"
  shows "tidy T M F'"
  unfolding tidy_iff
proof (intro allI impI)
  fix k assume k: "strict_prefix T k \<and> is_file F' k"
  then have pk: "prefix T k" by auto
  from mirror_step_source [OF ap st pk] k have fk: "is_file F k" by (simp add: is_file_def)
  with t k have nd: "\<not> is_dir F (reroot T M k)"
    and lv: "\<forall>k'. strict_prefix k k' \<longrightarrow> node_at F k' = None"
    unfolding tidy_iff by blast+
  have a: "\<forall>k'. strict_prefix k k' \<longrightarrow> node_at F' k' = None"
  proof (intro allI impI)
    fix k' assume s: "strict_prefix k k'"
    with pk have "prefix T k'" by (meson prefix_order.trans strict_prefix_def prefix_order.less_imp_le)
    from mirror_step_source [OF ap st this] lv s show "node_at F' k' = None" by simp
  qed
  have b: "\<not> is_dir F' (reroot T M k)"
  proof
    assume d: "is_dir F' (reroot T M k)"
    from mirror_stepD [OF st, of "reroot T M k"] show False
    proof (elim disjE conjE exE)
      assume "node_at F' (reroot T M k) = node_at F (reroot T M k)"
      with d nd show False by (simp add: is_dir_def)
    next
      fix k2 assume k2: "prefix T k2" "node_at F k2 \<noteq> None"
        "prefix (reroot T M k) (reroot T M k2)" "reroot T M k = reroot T M k2 \<longrightarrow> is_dir F k2"
      from k2(3) pk k2(1) have p: "prefix k k2" by (simp add: reroot_prefix)
      show False
      proof (cases "k = k2")
        case True
        with k2(4) have "is_dir F k" by simp
        with fk show False by (simp add: is_file_not_dir)
      next
        case False
        with p have "strict_prefix k k2" by (simp add: strict_prefix_def)
        with lv have "node_at F k2 = None" by simp
        with k2(2) show False by simp
      qed
    next
      fix k3 assume "is_file F k3" "node_at F' (reroot T M k) = node_at F k3"
      then have "is_file F' (reroot T M k)" by (simp add: is_file_def)
      with d show False by (simp add: is_file_not_dir)
    qed
  qed
  from a b show "\<not> is_dir F' (reroot T M k) \<and> (\<forall>k'. strict_prefix k k' \<longrightarrow> node_at F' k' = None)"
    by simp
qed

lemma mirror_step_kept:
  assumes st: "mirror_step T M F F'" and pk: "prefix T k"
    and n: "node_at F k = Some n" and m: "node_at F (reroot T M k) = Some n"
  shows "node_at F' (reroot T M k) = Some n"
proof -
  from mirror_stepD [OF st, of "reroot T M k"] show ?thesis
  proof (elim disjE conjE exE)
    assume "node_at F' (reroot T M k) = node_at F (reroot T M k)"
    with m show ?thesis by simp
  next
    assume "node_at F (reroot T M k) = None"
    with m show ?thesis by simp
  next
    fix k3 assume k3: "strict_prefix T k3" "reroot T M k = reroot T M k3"
      "node_at F' (reroot T M k) = node_at F k3"
    from k3(1) have "prefix T k3" by auto
    from reroot_inj [OF pk this k3(2)] k3(3) n show ?thesis by simp
  qed
qed

lemma mirror_step_trans:
  assumes ap: "\<not> prefix T M" "\<not> prefix M T"
    and fg: "mirror_step T M F G" and gh: "mirror_step T M G H"
  shows "mirror_step T M F H"
  unfolding mirror_step_def
proof (intro allI)
  fix q
  have src: "\<And>k. prefix T k \<Longrightarrow> node_at G k = node_at F k"
    using mirror_step_source [OF ap fg] .
  let ?goal = "node_at H q = node_at F q
        \<or> (node_at F q = None \<and> node_at H q = Some Dir
            \<and> (\<exists>k. prefix T k \<and> node_at F k \<noteq> None \<and> prefix q (reroot T M k)
                   \<and> (q = reroot T M k \<longrightarrow> is_dir F k)))
        \<or> (\<not> is_dir F q
            \<and> (\<exists>k. strict_prefix T k \<and> is_file F k \<and> q = reroot T M k
                   \<and> node_at H q = node_at F k))"
  from mirror_stepD [OF gh, of q] show ?goal
  proof (elim disjE conjE exE)
    assume e: "node_at H q = node_at G q"
    from mirror_stepD [OF fg, of q] show ?goal unfolding e .
  next
    fix k assume g: "node_at G q = None" "node_at H q = Some Dir"
      and k: "prefix T k" "node_at G k \<noteq> None" "prefix q (reroot T M k)"
        "q = reroot T M k \<longrightarrow> is_dir G k"
    from mirror_stepD [OF fg, of q] g(1) have fq: "node_at F q = None"
      by (auto simp add: is_file_def split: option.splits)
    from k src [OF k(1)] have "prefix T k \<and> node_at F k \<noteq> None \<and> prefix q (reroot T M k)
        \<and> (q = reroot T M k \<longrightarrow> is_dir F k)"
      by (simp add: is_dir_def)
    with fq g(2) show ?goal by blast
  next
    fix k assume g: "\<not> is_dir G q"
      and k: "strict_prefix T k" "is_file G k" "q = reroot T M k" "node_at H q = node_at G k"
    from k(1) have pk: "prefix T k" by auto
    from mirror_stepD [OF fg, of q] g have fq: "\<not> is_dir F q"
      by (auto simp add: is_dir_def)
    from k src [OF pk] have "strict_prefix T k \<and> is_file F k \<and> q = reroot T M k
        \<and> node_at H q = node_at F k"
      by (simp add: is_file_def)
    with fq show ?goal by blast
  qed
qed

lemma ensure_dir_touches:
  assumes "ensure_dir p F = Inr F'" and "node_at F' q \<noteq> node_at F q"
  shows "prefix q p \<and> node_at F q = None \<and> node_at F' q = Some Dir"
proof -
  from ensure_dir_node_at [OF assms(1), of q] assms(2)
  have a: "node_at F q = None" and b: "prefix q p"
    by (auto split: option.splits if_splits)
  from ensure_dir_new_is_dir [OF assms(1) a] assms(2) a have "node_at F' q = Some Dir" by auto
  with a b show ?thesis by simp
qed

lemma ensure_dir_mirror_step:
  assumes e: "ensure_dir p F = Inr F'" and k: "prefix T k" "node_at F k \<noteq> None"
    and p: "prefix p (reroot T M k)" "p = reroot T M k \<longrightarrow> is_dir F k"
  shows "mirror_step T M F F'"
  unfolding mirror_step_def
proof (intro allI)
  fix q
  show "node_at F' q = node_at F q
        \<or> (node_at F q = None \<and> node_at F' q = Some Dir
            \<and> (\<exists>k. prefix T k \<and> node_at F k \<noteq> None \<and> prefix q (reroot T M k)
                   \<and> (q = reroot T M k \<longrightarrow> is_dir F k)))
        \<or> (\<not> is_dir F q
            \<and> (\<exists>k. strict_prefix T k \<and> is_file F k \<and> q = reroot T M k
                   \<and> node_at F' q = node_at F k))"
  proof (cases "node_at F' q = node_at F q")
    case False
    from ensure_dir_touches [OF e False] have t: "prefix q p" "node_at F q = None"
      "node_at F' q = Some Dir" by simp_all
    from t(1) p(1) have a: "prefix q (reroot T M k)" by (rule prefix_order.trans)
    have b: "q = reroot T M k \<longrightarrow> is_dir F k"
    proof
      assume "q = reroot T M k"
      with t(1) p(1) have "p = reroot T M k" by (simp add: prefix_order.antisym)
      with p(2) show "is_dir F k" by simp
    qed
    from k a b have "\<exists>k. prefix T k \<and> node_at F k \<noteq> None \<and> prefix q (reroot T M k)
                   \<and> (q = reroot T M k \<longrightarrow> is_dir F k)" by blast
    with t show ?thesis by simp
  qed simp
qed

lemma copy2_mirror_step:
  assumes c: "copy2 k (reroot T M k) F = Inr F'" and k: "strict_prefix T k"
    and nd: "\<not> is_dir F (reroot T M k)"
  shows "mirror_step T M F F' \<and> node_at F' (reroot T M k) = node_at F k"
proof -
  let ?t = "reroot T M k"
  from c nd obtain s c0 where n: "node_at F k = Some (File s c0)"
    and F': "F' = AList.update ?t (File s c0) F"
    by (auto simp add: copy2_def Let_def split: option.splits node.splits if_splits)
  from reroot_nonempty [OF k] have ne: "?t \<noteq> []" .
  from F' ne have upd: "\<And>q. node_at F' q = (if q = ?t then Some (File s c0) else node_at F q)"
    by (simp add: node_at_update)
  from n have fk: "is_file F k" by (simp add: is_file_def)
  have "mirror_step T M F F'"
    unfolding mirror_step_def
  proof (intro allI)
    fix q
    show "node_at F' q = node_at F q
        \<or> (node_at F q = None \<and> node_at F' q = Some Dir
            \<and> (\<exists>k. prefix T k \<and> node_at F k \<noteq> None \<and> prefix q (reroot T M k)
                   \<and> (q = reroot T M k \<longrightarrow> is_dir F k)))
        \<or> (\<not> is_dir F q
            \<and> (\<exists>k. strict_prefix T k \<and> is_file F k \<and> q = reroot T M k
                   \<and> node_at F' q = node_at F k))"
    proof (cases "q = ?t")
      case True
      with upd [of q] n have "node_at F' q = node_at F k" by simp
      with k fk True have "\<exists>k. strict_prefix T k \<and> is_file F k \<and> q = reroot T M k
                   \<and> node_at F' q = node_at F k" by blast
      with nd True show ?thesis by simp
    next
      case False
      with upd [of q] show ?thesis by simp
    qed
  qed
  with upd [of ?t] n show ?thesis by simp
qed

lemma parent_prefix: "prefix (parent p) p"
  by (simp add: parent_def prefixeq_butlast)

lemma parent_differs: "p \<noteq> [] \<Longrightarrow> parent p \<noteq> p"
  by (cases p rule: rev_cases) (simp_all add: parent_def)

lemma copy_entries_mirror:
  assumes ap: "\<not> prefix T M" "\<not> prefix M T"
  shows "copy_entries (T @ s) (M @ s) ks cur = Inr F' \<Longrightarrow> tidy T M cur \<Longrightarrow>
         \<forall>k \<in> set ks. strict_prefix (T @ s) k \<Longrightarrow>
         mirror_step T M cur F'
         \<and> (\<forall>k \<in> set ks. \<forall>n. node_at cur k = Some n \<longrightarrow> node_at F' (reroot T M k) = Some n)"
proof (induction ks arbitrary: cur)
  case Nil
  then show ?case by (simp add: mirror_step_refl)
next
  case (Cons k ks)
  from Cons.prems(3) have sk: "strict_prefix (T @ s) k" by simp
  then have pk: "prefix T k" and spk: "strict_prefix T k"
    by (auto simp add: strict_prefix_def prefix_def)
  from sk have tg: "reroot (T @ s) (M @ s) k = reroot T M k"
    by (simp add: reroot_below strict_prefix_def)
  from Cons.prems(3) have rest: "\<forall>k \<in> set ks. strict_prefix (T @ s) k" by simp
  have "\<exists>c1. mirror_step T M cur c1 \<and> copy_entries (T @ s) (M @ s) ks c1 = Inr F'
          \<and> (\<forall>n. node_at cur k = Some n \<longrightarrow> node_at c1 (reroot T M k) = Some n)"
  proof (cases "node_at cur k")
    case None
    with Cons.prems(1) show ?thesis
      by (intro exI [of _ cur]) (simp add: mirror_step_refl)
  next
    case (Some n)
    show ?thesis
    proof (cases n)
      case Dir
      with Some Cons.prems(1) tg obtain c1 where
        e: "ensure_dir (reroot T M k) cur = Inr c1"
        and r: "copy_entries (T @ s) (M @ s) ks c1 = Inr F'"
        by (auto simp add: Let_def split: sum.splits)
      from Some Dir have "is_dir cur k" "node_at cur k \<noteq> None" by (simp_all add: is_dir_def)
      with ensure_dir_mirror_step [OF e pk, of M] have m: "mirror_step T M cur c1" by simp
      from ensure_dir_is_dir [OF e] have "node_at c1 (reroot T M k) = Some Dir"
        by (simp add: is_dir_def)
      with m r Some Dir show ?thesis by (intro exI [of _ c1]) simp
    next
      case (File sz c)
      with Some Cons.prems(1) tg obtain c0 c1 where
        e: "ensure_dir (parent (reroot T M k)) cur = Inr c0"
        and c2: "copy2 k (reroot T M k) c0 = Inr c1"
        and r: "copy_entries (T @ s) (M @ s) ks c1 = Inr F'"
        by (auto simp add: Let_def bindE_eq_Inr split: sum.splits)
      from Some have ex: "node_at cur k \<noteq> None" by simp
      from reroot_nonempty [OF spk] have "parent (reroot T M k) \<noteq> reroot T M k"
        by (rule parent_differs)
      with ensure_dir_mirror_step [OF e pk ex, of M] have m0: "mirror_step T M cur c0"
        by (simp add: parent_prefix)
      from mirror_step_tidy [OF ap Cons.prems(2) m0] have t0: "tidy T M c0" .
      from mirror_step_source [OF ap m0 pk] Some File have n0: "node_at c0 k = Some (File sz c)"
        by simp
      then have "is_file c0 k" by (simp add: is_file_def)
      with t0 spk have nd: "\<not> is_dir c0 (reroot T M k)" unfolding tidy_iff by blast
      from copy2_mirror_step [OF c2 spk nd] have m1: "mirror_step T M c0 c1"
        and v: "node_at c1 (reroot T M k) = node_at c0 k" by simp_all
      from mirror_step_trans [OF ap m0 m1] have "mirror_step T M cur c1" .
      with v n0 Some File r show ?thesis by (intro exI [of _ c1]) simp
    qed
  qed
  then obtain c1 where m: "mirror_step T M cur c1"
    and r: "copy_entries (T @ s) (M @ s) ks c1 = Inr F'"
    and v: "\<forall>n. node_at cur k = Some n \<longrightarrow> node_at c1 (reroot T M k) = Some n"
    by blast
  from mirror_step_tidy [OF ap Cons.prems(2) m] have t1: "tidy T M c1" .
  from Cons.IH [OF r t1 rest] have m2: "mirror_step T M c1 F'"
    and v2: "\<forall>k \<in> set ks. \<forall>n. node_at c1 k = Some n \<longrightarrow> node_at F' (reroot T M k) = Some n"
    by simp_all
  have src: "\<And>q. prefix T q \<Longrightarrow> node_at c1 q = node_at cur q"
    using mirror_step_source [OF ap m] .
  have a: "mirror_step T M cur F'" using mirror_step_trans [OF ap m m2] .
  have b: "\<forall>n. node_at cur k = Some n \<longrightarrow> node_at F' (reroot T M k) = Some n"
  proof (intro allI impI)
    fix n assume n: "node_at cur k = Some n"
    with v have "node_at c1 (reroot T M k) = Some n" by simp
    moreover from n src [OF pk] have "node_at c1 k = Some n" by simp
    ultimately show "node_at F' (reroot T M k) = Some n"
      using mirror_step_kept [OF m2 pk] by simp
  qed
  have c: "\<forall>k \<in> set ks. \<forall>n. node_at cur k = Some n \<longrightarrow> node_at F' (reroot T M k) = Some n"
  proof (intro ballI allI impI)
    fix k' n assume k': "k' \<in> set ks" and n: "node_at cur k' = Some n"
    from rest k' have "prefix T k'" by (auto simp add: strict_prefix_def prefix_def)
    from src [OF this] n have "node_at c1 k' = Some n" by simp
    with v2 k' show "node_at F' (reroot T M k') = Some n" by blast
  qed
  from a b c show ?case by simp
qed

lemma copy_tree_safe_mirror:
  assumes ap: "\<not> prefix T M" "\<not> prefix M T" and nd: "\<not> dry_run (ARGS e)"
    and c: "copy_tree_safe e w (T @ s) (M @ s) = Inr w'" and t: "tidy T M (fs w)"
  shows "mirror_step T M (fs w) (fs w')
     \<and> (\<forall>k n. strict_prefix (T @ s) k \<and> node_at (fs w) k = Some n
            \<longrightarrow> node_at (fs w') (reroot T M k) = Some n)"
proof -
  from c nd obtain f1 f2 where e: "ensure_dir (M @ s) (fs w) = Inr f1"
    and ct: "copytree (T @ s) (M @ s) f1 = Inr f2" and w': "fs w' = f2"
    by (auto simp add: copy_tree_safe_def bindE_eq_Inr Let_def)
  from ensure_dir_is_dir [OF e] have "ensure_dir (M @ s) f1 = Inr f1" by (rule ensure_dir_existing)
  with ct have d1: "node_at f1 (T @ s) = Some Dir"
    and ce: "copy_entries (T @ s) (M @ s) (rglob f1 (T @ s)) f1 = Inr f2"
    by (auto simp add: copytree_def split: option.splits node.splits)
  have same: "node_at f1 (T @ s) = node_at (fs w) (T @ s)"
  proof (rule ccontr)
    assume "node_at f1 (T @ s) \<noteq> node_at (fs w) (T @ s)"
    from ensure_dir_touches [OF e this] have "prefix (T @ s) (M @ s)" by simp
    then have "prefix T (M @ s)" by (auto simp add: prefix_def)
    moreover have "prefix M (M @ s)" by simp
    ultimately have "prefix T M \<or> prefix M T" by (rule prefix_same_cases)
    with ap show False by simp
  qed
  have pT: "prefix T (T @ s)" by simp
  have rT: "reroot T M (T @ s) = M @ s" by (simp add: reroot_def)
  from d1 same have "node_at (fs w) (T @ s) \<noteq> None" "is_dir (fs w) (T @ s)"
    by (simp_all add: is_dir_def)
  with ensure_dir_mirror_step [OF e pT, of M] rT have m0: "mirror_step T M (fs w) f1" by simp
  from mirror_step_tidy [OF ap t m0] have t1: "tidy T M f1" .
  have listed: "\<forall>k \<in> set (rglob f1 (T @ s)). strict_prefix (T @ s) k" by (simp add: rglob_def)
  from copy_entries_mirror [OF ap ce t1 listed] have m1: "mirror_step T M f1 f2"
    and v: "\<forall>k \<in> set (rglob f1 (T @ s)). \<forall>n. node_at f1 k = Some n
               \<longrightarrow> node_at f2 (reroot T M k) = Some n"
    by simp_all
  have a: "mirror_step T M (fs w) (fs w')" using mirror_step_trans [OF ap m0 m1] w' by simp
  have b: "\<forall>k n. strict_prefix (T @ s) k \<and> node_at (fs w) k = Some n
            \<longrightarrow> node_at (fs w') (reroot T M k) = Some n"
  proof (intro allI impI)
    fix k n assume k: "strict_prefix (T @ s) k \<and> node_at (fs w) k = Some n"
    then have pk: "prefix T k" and ne: "k \<noteq> []" by (auto simp add: strict_prefix_def prefix_def)
    from mirror_step_source [OF ap m0 pk] k have n1: "node_at f1 k = Some n" by simp
    from node_listed [OF n1 ne] k have "k \<in> set (rglob f1 (T @ s))" by (simp add: rglob_def)
    with v n1 w' show "node_at (fs w') (reroot T M k) = Some n" by blast
  qed
  from a b show ?thesis by simp
qed

lemma copy_seasons_mirror:
  assumes ap: "\<not> prefix topdir (output_root @ rel)" "\<not> prefix (output_root @ rel) topdir"
    and nd: "\<not> dry_run (ARGS e)" and rel: "relative_to topdir downloads_root = Inr rel"
  shows "copy_seasons e w sks topdir downloads_root output_root = Inr w' \<Longrightarrow>
         tidy topdir (output_root @ rel) (fs w) \<Longrightarrow>
         mirror_step topdir (output_root @ rel) (fs w) (fs w')
         \<and> (\<forall>sk \<in> set sks. exists (fs w) (if sk = [] then topdir else topdir @ [sk]) \<longrightarrow>
               (\<forall>k n. strict_prefix (if sk = [] then topdir else topdir @ [sk]) k
                        \<and> node_at (fs w) k = Some n
                  \<longrightarrow> node_at (fs w') (reroot topdir (output_root @ rel) k) = Some n))"
proof (induction sks arbitrary: w)
  case Nil
  then show ?case by (simp add: mirror_step_refl)
next
  case (Cons a sks)
  let ?M = "output_root @ rel"
  let ?s = "if a = [] then [] else [a]"
  let ?src = "if a = [] then topdir else topdir @ [a]"
  let ?dst = "if a = [] then output_root @ rel else output_root @ (rel @ [a])"
  have src: "?src = topdir @ ?s" and dst: "?dst = ?M @ ?s" by simp_all
  from copy_seasons_step [OF Cons.prems(1)] rel have
    st: "if exists (fs w) ?src
         then \<exists>w1. copy_tree_safe e
                     (log (''Season-level copy: '' @ path_str ?src @ '' -> '' @ path_str ?dst) w)
                     ?src ?dst = Inr w1
                \<and> copy_seasons e
                     (stamp_copied w1
                        (filter (\<lambda>f. is_file (fs w1) f \<and> is_video f) (rglob (fs w1) ?src)) ?dst)
                     sks topdir downloads_root output_root = Inr w'
         else copy_seasons e w sks topdir downloads_root output_root = Inr w'"
    by auto
  show ?case
  proof (cases "exists (fs w) ?src")
    case False
    with st have r: "copy_seasons e w sks topdir downloads_root output_root = Inr w'" by simp
    from Cons.IH [OF r Cons.prems(2)] False show ?thesis by simp
  next
    case True
    with st obtain w1 where
      ct: "copy_tree_safe e
             (log (''Season-level copy: '' @ path_str ?src @ '' -> '' @ path_str ?dst) w)
             ?src ?dst = Inr w1"
      and r: "copy_seasons e
                (stamp_copied w1
                   (filter (\<lambda>f. is_file (fs w1) f \<and> is_video f) (rglob (fs w1) ?src)) ?dst)
                sks topdir downloads_root output_root = Inr w'"
      by auto
    let ?ws = "stamp_copied w1
                 (filter (\<lambda>f. is_file (fs w1) f \<and> is_video f) (rglob (fs w1) ?src)) ?dst"
    have fws: "fs ?ws = fs w1" by (simp add: stamp_copied_frame)
    from ct have ct': "copy_tree_safe e
             (log (''Season-level copy: '' @ path_str ?src @ '' -> '' @ path_str ?dst) w)
             (topdir @ ?s) (?M @ ?s) = Inr w1"
      unfolding src dst .
    from Cons.prems(2) have t0: "tidy topdir ?M
        (fs (log (''Season-level copy: '' @ path_str ?src @ '' -> '' @ path_str ?dst) w))"
      by simp
    from copy_tree_safe_mirror [OF ap nd ct' t0] have m1: "mirror_step topdir ?M (fs w) (fs w1)"
      and v1: "\<forall>k n. strict_prefix (topdir @ ?s) k \<and> node_at (fs w) k = Some n
                 \<longrightarrow> node_at (fs w1) (reroot topdir ?M k) = Some n"
      by simp_all
    from mirror_step_tidy [OF ap Cons.prems(2) m1] have t1: "tidy topdir ?M (fs ?ws)"
      unfolding fws .
    from Cons.IH [OF r t1] have m2: "mirror_step topdir ?M (fs w1) (fs w')"
      and v2: "\<forall>sk \<in> set sks. exists (fs w1) (if sk = [] then topdir else topdir @ [sk]) \<longrightarrow>
               (\<forall>k n. strict_prefix (if sk = [] then topdir else topdir @ [sk]) k
                        \<and> node_at (fs w1) k = Some n
                  \<longrightarrow> node_at (fs w') (reroot topdir ?M k) = Some n)"
      unfolding fws by simp_all
    have same: "\<And>q. prefix topdir q \<Longrightarrow> node_at (fs w1) q = node_at (fs w) q"
      using mirror_step_source [OF ap m1] .
    have a: "mirror_step topdir ?M (fs w) (fs w')" using mirror_step_trans [OF ap m1 m2] .
    have b: "\<forall>k n. strict_prefix ?src k \<and> node_at (fs w) k = Some n
                  \<longrightarrow> node_at (fs w') (reroot topdir ?M k) = Some n"
    proof (intro allI impI)
      fix k n assume k: "strict_prefix ?src k \<and> node_at (fs w) k = Some n"
      then have k': "strict_prefix (topdir @ ?s) k \<and> node_at (fs w) k = Some n"
        unfolding src .
      then have pk: "prefix topdir k" by (auto simp add: strict_prefix_def prefix_def)
      from v1 k' have "node_at (fs w1) (reroot topdir ?M k) = Some n" by blast
      moreover from same [OF pk] k have "node_at (fs w1) k = Some n" by simp
      ultimately show "node_at (fs w') (reroot topdir ?M k) = Some n"
        using mirror_step_kept [OF m2 pk] by simp
    qed
    have c: "\<forall>sk \<in> set sks. exists (fs w) (if sk = [] then topdir else topdir @ [sk]) \<longrightarrow>
               (\<forall>k n. strict_prefix (if sk = [] then topdir else topdir @ [sk]) k
                        \<and> node_at (fs w) k = Some n
                  \<longrightarrow> node_at (fs w') (reroot topdir ?M k) = Some n)"
    proof (intro ballI allI impI)
      fix sk k n assume sk: "sk \<in> set sks"
        and ex: "exists (fs w) (if sk = [] then topdir else topdir @ [sk])"
        and k: "strict_prefix (if sk = [] then topdir else topdir @ [sk]) k
                  \<and> node_at (fs w) k = Some n"
      have "prefix topdir (if sk = [] then topdir else topdir @ [sk])" by simp
      from same [OF this] ex have ex1: "exists (fs w1) (if sk = [] then topdir else topdir @ [sk])"
        by (simp add: exists_def)
      from k have "prefix topdir k"
        by (auto simp add: strict_prefix_def prefix_def split: if_splits)
      from same [OF this] k have "strict_prefix (if sk = [] then topdir else topdir @ [sk]) k
                  \<and> node_at (fs w1) k = Some n" by simp
      with v2 sk ex1 show "node_at (fs w') (reroot topdir ?M k) = Some n" by blast
    qed
    from a b c show ?thesis by simp
  qed
qed

subsection \<open>The season-level copy: what it leaves alone\<close>

lemma comparable_under: "prefix q (D @ r) \<Longrightarrow> prefix q D \<or> prefix D q"
proof -
  assume "prefix q (D @ r)"
  moreover have "prefix D (D @ r)" by simp
  ultimately show ?thesis by (rule prefix_same_cases)
qed

lemma copy2_touches:
  assumes "copy2 k t F = Inr F'" and "node_at F' q \<noteq> node_at F q"
  shows "prefix t q"
proof -
  let ?t = "if is_dir F t then join t (name k) else t"
  from assms(1) obtain s c where F': "F' = AList.update ?t (File s c) F"
    by (auto simp add: copy2_def Let_def split: option.splits node.splits if_splits)
  have "q = ?t"
  proof (rule ccontr)
    assume "q \<noteq> ?t"
    with F' have "node_at F' q = node_at F q" by (simp add: node_at_def update_conv')
    with assms(2) show False by simp
  qed
  then show ?thesis by (simp add: join_def)
qed

lemma copy_entries_touches:
  "copy_entries S D ks cur = Inr F' \<Longrightarrow> \<forall>k \<in> set ks. prefix S k \<Longrightarrow>
   node_at F' q \<noteq> node_at cur q \<Longrightarrow> prefix q D \<or> prefix D q"
proof (induction ks arbitrary: cur)
  case Nil
  then show ?case by simp
next
  case (Cons k ks)
  from Cons.prems(2) have tg: "reroot S D k = D @ drop (length S) k" by (simp add: reroot_def)
  from Cons.prems(2) have rest: "\<forall>k \<in> set ks. prefix S k" by simp
  have "\<exists>c1. copy_entries S D ks c1 = Inr F'
          \<and> (node_at c1 q \<noteq> node_at cur q \<longrightarrow> prefix q D \<or> prefix D q)"
  proof (cases "node_at cur k")
    case None
    with Cons.prems(1) show ?thesis by (intro exI [of _ cur]) simp
  next
    case (Some n)
    show ?thesis
    proof (cases n)
      case Dir
      with Some Cons.prems(1) tg obtain c1 where
        e: "ensure_dir (D @ drop (length S) k) cur = Inr c1"
        and r: "copy_entries S D ks c1 = Inr F'"
        by (auto simp add: Let_def split: sum.splits)
      have "node_at c1 q \<noteq> node_at cur q \<longrightarrow> prefix q D \<or> prefix D q"
      proof
        assume "node_at c1 q \<noteq> node_at cur q"
        from ensure_dir_touches [OF e this] have "prefix q (D @ drop (length S) k)" by simp
        then show "prefix q D \<or> prefix D q" by (rule comparable_under)
      qed
      with r show ?thesis by blast
    next
      case (File sz c)
      with Some Cons.prems(1) tg obtain c0 c1 where
        e: "ensure_dir (parent (D @ drop (length S) k)) cur = Inr c0"
        and c2: "copy2 k (D @ drop (length S) k) c0 = Inr c1"
        and r: "copy_entries S D ks c1 = Inr F'"
        by (auto simp add: Let_def bindE_eq_Inr split: sum.splits)
      have "node_at c1 q \<noteq> node_at cur q \<longrightarrow> prefix q D \<or> prefix D q"
      proof
        assume d: "node_at c1 q \<noteq> node_at cur q"
        show "prefix q D \<or> prefix D q"
        proof (cases "node_at c0 q = node_at cur q")
          case True
          with d have "node_at c1 q \<noteq> node_at c0 q" by simp
          from copy2_touches [OF c2 this] have "prefix D q" by (auto simp add: prefix_def)
          then show ?thesis by simp
        next
          case False
          from ensure_dir_touches [OF e False] have "prefix q (parent (D @ drop (length S) k))"
            by simp
          then have "prefix q (D @ drop (length S) k)"
            using parent_prefix [of "D @ drop (length S) k"] by (rule prefix_order.trans)
          then show ?thesis by (rule comparable_under)
        qed
      qed
      with r show ?thesis by blast
    qed
  qed
  then obtain c1 where r: "copy_entries S D ks c1 = Inr F'"
    and t: "node_at c1 q \<noteq> node_at cur q \<longrightarrow> prefix q D \<or> prefix D q"
    by blast
  show ?case
  proof (cases "node_at c1 q = node_at cur q")
    case True
    with Cons.prems(3) have "node_at F' q \<noteq> node_at c1 q" by simp
    from Cons.IH [OF r rest this] show ?thesis .
  next
    case False
    with t show ?thesis by simp
  qed
qed

lemma copy_tree_safe_touches:
  assumes "copy_tree_safe e w S D = Inr w'" and "node_at (fs w') q \<noteq> node_at (fs w) q"
  shows "prefix q D \<or> prefix D q"
proof -
  from assms(1) obtain f1 where e: "ensure_dir D (fs w) = Inr f1"
    and r: "(if dry_run (ARGS e)
       then Inr (log (''[DRY-RUN] Would copy tree '' @ path_str S @ '' -> '' @ path_str D)
                  (w\<lparr>fs := f1\<rparr>))
       else bindE (copytree S D f1) (\<lambda>f2. Inr (w\<lparr>fs := f1, fs := f2\<rparr>))) = Inr w'"
    by (auto simp add: copy_tree_safe_def bindE_eq_Inr Let_def)
  show ?thesis
  proof (cases "node_at f1 q = node_at (fs w) q")
    case False
    from ensure_dir_touches [OF e False] show ?thesis by simp
  next
    case True
    with assms(2) have d: "node_at (fs w') q \<noteq> node_at f1 q" by simp
    have nd: "\<not> dry_run (ARGS e)"
    proof
      assume "dry_run (ARGS e)"
      with r have "fs w' = f1" by (auto simp add: log_def)
      with d show False by simp
    qed
    with r obtain f2 where ct: "copytree S D f1 = Inr f2" and w': "w' = w\<lparr>fs := f2\<rparr>"
      by (auto simp add: bindE_eq_Inr)
    from ensure_dir_is_dir [OF e] have "ensure_dir D f1 = Inr f1" by (rule ensure_dir_existing)
    with ct have ce: "copy_entries S D (rglob f1 S) f1 = Inr f2"
      by (auto simp add: copytree_def split: option.splits node.splits)
    have "\<forall>k \<in> set (rglob f1 S). prefix S k" by (simp add: rglob_def strict_prefix_def)
    from copy_entries_touches [OF ce this] d w' show ?thesis by simp
  qed
qed

lemma copy_seasons_touches:
  assumes rel: "relative_to topdir downloads_root = Inr rel"
  shows "copy_seasons e w sks topdir downloads_root output_root = Inr w' \<Longrightarrow>
     (node_at (fs w') q \<noteq> node_at (fs w) q \<longrightarrow>
        (\<exists>sk \<in> set sks. prefix q (output_root @ rel @ (if sk = [] then [] else [sk]))
                       \<or> prefix (output_root @ rel @ (if sk = [] then [] else [sk])) q))
     \<and> (status_of w' f \<noteq> status_of w f \<longrightarrow>
        (\<exists>sk \<in> set sks. strict_prefix (if sk = [] then topdir else topdir @ [sk]) f)
         \<and> is_video f \<and> status_of w' f = Some Copied_season)"
proof (induction sks arbitrary: w)
  case Nil
  then show ?case by simp
next
  case (Cons a sks)
  let ?src = "if a = [] then topdir else topdir @ [a]"
  let ?dst = "if a = [] then output_root @ rel else output_root @ (rel @ [a])"
  have dst: "?dst = output_root @ rel @ (if a = [] then [] else [a])" by simp
  from copy_seasons_step [OF Cons.prems(1)] rel have
    st: "if exists (fs w) ?src
         then \<exists>w1. copy_tree_safe e
                     (log (''Season-level copy: '' @ path_str ?src @ '' -> '' @ path_str ?dst) w)
                     ?src ?dst = Inr w1
                \<and> copy_seasons e
                     (stamp_copied w1
                        (filter (\<lambda>f. is_file (fs w1) f \<and> is_video f) (rglob (fs w1) ?src)) ?dst)
                     sks topdir downloads_root output_root = Inr w'
         else copy_seasons e w sks topdir downloads_root output_root = Inr w'"
    by auto
  show ?case
  proof (cases "exists (fs w) ?src")
    case False
    with st have r: "copy_seasons e w sks topdir downloads_root output_root = Inr w'" by simp
    from Cons.IH [OF r] show ?thesis by auto
  next
    case True
    with st obtain w1 where
      ct: "copy_tree_safe e
             (log (''Season-level copy: '' @ path_str ?src @ '' -> '' @ path_str ?dst) w)
             ?src ?dst = Inr w1"
      and r: "copy_seasons e
                (stamp_copied w1
                   (filter (\<lambda>f. is_file (fs w1) f \<and> is_video f) (rglob (fs w1) ?src)) ?dst)
                sks topdir downloads_root output_root = Inr w'"
      by auto
    let ?ws = "stamp_copied w1
                 (filter (\<lambda>f. is_file (fs w1) f \<and> is_video f) (rglob (fs w1) ?src)) ?dst"
    have fws: "fs ?ws = fs w1" by (simp add: stamp_copied_frame)
    from copy_tree_safe_keeps [OF ct] have d1: "db w1 = db w" by simp
    from Cons.IH [OF r] have
      ih1: "node_at (fs w') q \<noteq> node_at (fs w1) q \<longrightarrow>
        (\<exists>sk \<in> set sks. prefix q (output_root @ rel @ (if sk = [] then [] else [sk]))
                       \<or> prefix (output_root @ rel @ (if sk = [] then [] else [sk])) q)"
      and ih2: "status_of w' f \<noteq> status_of ?ws f \<longrightarrow>
        (\<exists>sk \<in> set sks. strict_prefix (if sk = [] then topdir else topdir @ [sk]) f)
         \<and> is_video f \<and> status_of w' f = Some Copied_season"
      unfolding fws by simp_all
    from copy_seasons_keeps [OF r]
    have sticky: "status_of ?ws f = Some Copied_season \<longrightarrow> status_of w' f = Some Copied_season"
      by blast
    have a: "node_at (fs w') q \<noteq> node_at (fs w) q \<longrightarrow>
        (\<exists>sk \<in> set (a # sks). prefix q (output_root @ rel @ (if sk = [] then [] else [sk]))
                       \<or> prefix (output_root @ rel @ (if sk = [] then [] else [sk])) q)"
    proof
      assume d: "node_at (fs w') q \<noteq> node_at (fs w) q"
      show "\<exists>sk \<in> set (a # sks). prefix q (output_root @ rel @ (if sk = [] then [] else [sk]))
                       \<or> prefix (output_root @ rel @ (if sk = [] then [] else [sk])) q"
      proof (cases "node_at (fs w1) q = node_at (fs w) q")
        case True
        with d ih1 show ?thesis by auto
      next
        case False
        then have "node_at (fs w1) q \<noteq> node_at
            (fs (log (''Season-level copy: '' @ path_str ?src @ '' -> '' @ path_str ?dst) w)) q"
          by simp
        from copy_tree_safe_touches [OF ct this] have "prefix q ?dst \<or> prefix ?dst q" .
        then have "prefix q (output_root @ rel @ (if a = [] then [] else [a]))
                 \<or> prefix (output_root @ rel @ (if a = [] then [] else [a])) q"
          unfolding dst .
        then show ?thesis by simp
      qed
    qed
    have b: "status_of w' f \<noteq> status_of w f \<longrightarrow>
        (\<exists>sk \<in> set (a # sks). strict_prefix (if sk = [] then topdir else topdir @ [sk]) f)
         \<and> is_video f \<and> status_of w' f = Some Copied_season"
    proof
      assume d: "status_of w' f \<noteq> status_of w f"
      have s1: "status_of w1 f = status_of w f" using d1 by (simp add: status_of_def)
      show "(\<exists>sk \<in> set (a # sks). strict_prefix (if sk = [] then topdir else topdir @ [sk]) f)
         \<and> is_video f \<and> status_of w' f = Some Copied_season"
      proof (cases "f \<in> set (filter (\<lambda>f. is_file (fs w1) f \<and> is_video f) (rglob (fs w1) ?src))")
        case True
        have "status_of ?ws f
            = (if f \<in> set (filter (\<lambda>f. is_file (fs w1) f \<and> is_video f) (rglob (fs w1) ?src))
               then Some Copied_season else status_of w1 f)"
          by (rule stamp_copied_status)
        with True have "status_of ?ws f = Some Copied_season" by (simp only: if_True)
        with sticky have "status_of w' f = Some Copied_season" by simp
        moreover from True have "strict_prefix ?src f" "is_video f" by (simp_all add: rglob_def)
        ultimately show ?thesis by auto
      next
        case False
        have "status_of ?ws f
            = (if f \<in> set (filter (\<lambda>f. is_file (fs w1) f \<and> is_video f) (rglob (fs w1) ?src))
               then Some Copied_season else status_of w1 f)"
          by (rule stamp_copied_status)
        with False have "status_of ?ws f = status_of w1 f" by (simp only: if_False)
        with s1 d ih2 show ?thesis by auto
      qed
    qed
    from a b show ?thesis by blast
  qed
qed

end
